theory Spec2Isabelle
  imports Main "HOL-Library.Multiset" "HOL-Library.Product_Lexorder"
begin

section \<open>Data model\<close>

text \<open>
  \<^verbatim>\<open>FileInfo\<close> (models/Fileinfo.ts) has a name and an optional \<^verbatim>\<open>Date\<close>. A name is
  modelled as a \<open>string\<close>, a list of characters standing for the code units of the
  JavaScript string: the operations the program applies to names (\<^verbatim>\<open>indexOf\<close> and
  \<^verbatim>\<open>includes\<close> of a single ASCII character, \<^verbatim>\<open>substring\<close>, a replacement character by
  character) work unit by unit. A \<^verbatim>\<open>Date\<close> is modelled by the integer that \<^verbatim>\<open>getTime()\<close> returns
  (milliseconds since the epoch), and \<^verbatim>\<open>undefined\<close> by \<open>None\<close>. Every \<^verbatim>\<open>Date\<close> object is
  truthy, so the tests \<^verbatim>\<open>if (file.lastModified)\<close> and \<^verbatim>\<open>!earliestA\<close> of the source
  distinguish exactly \<open>Some\<close> from \<open>None\<close>. Only the sign of a difference of two
  timestamps is ever used, which integer subtraction gives as the floating-point
  subtraction does.
\<close>

record FileInfo =
  name :: string
  lastModified :: "int option"

text \<open>What the loop of \<^verbatim>\<open>listAndGroupContainerFiles\<close> reads of a listed blob:
  \<^verbatim>\<open>blob.name\<close> and \<^verbatim>\<open>blob.properties.lastModified\<close>.\<close>

record BlobItem =
  blob_name :: string
  blob_lastModified :: "int option"

text \<open>
  Arrays are JavaScript objects, held by reference: the \<^verbatim>\<open>Map\<close> built by the grouping
  phase and the entries array sorted by the saving phase share the same arrays. The
  store is a list of arrays and a reference is an index into it. A
  \<^verbatim>\<open>Map<string, FileInfo[]>\<close> keeps its keys in insertion order and is an association
  list from keys to references.
\<close>

type_synonym ref = nat
type_synonym heap = "FileInfo list list"
type_synonym GroupMap = "(string \<times> ref) list"

definition map_has :: "GroupMap \<Rightarrow> string \<Rightarrow> bool" where
  "map_has m k = (map_of m k \<noteq> None)"

definition map_get :: "GroupMap \<Rightarrow> string \<Rightarrow> ref option" where
  "map_get m k = map_of m k"

text \<open>\<^verbatim>\<open>Map.prototype.set\<close>: an existing key keeps its place and takes the new value, a new
  key goes to the end.\<close>

fun map_set :: "GroupMap \<Rightarrow> string \<Rightarrow> ref \<Rightarrow> GroupMap" where
  "map_set [] k r = [(k, r)]"
| "map_set ((k', r') # m) k r = (if k' = k then (k, r) # m else (k', r') # map_set m k r)"

text \<open>Allocation of a new array (\<^verbatim>\<open>[]\<close>) and \<^verbatim>\<open>Array.prototype.push\<close> of one element
  through a reference.\<close>

definition alloc :: "heap \<Rightarrow> ref \<times> heap" where
  "alloc h = (length h, h @ [[]])"

definition push :: "heap \<Rightarrow> ref \<Rightarrow> FileInfo \<Rightarrow> heap" where
  "push h r x = h[r := h ! r @ [x]]"

section \<open>String operations of the platform\<close>

text \<open>\<^verbatim>\<open>String.prototype.indexOf\<close> with a one-character pattern: the first index of the
  character, or \<open>-1\<close>.\<close>

fun indexOf :: "string \<Rightarrow> char \<Rightarrow> int" where
  "indexOf [] c = - 1"
| "indexOf (x # xs) c =
     (if x = c then 0 else (let i = indexOf xs c in if i < 0 then - 1 else i + 1))"

text \<open>\<^verbatim>\<open>String.prototype.substring(start, end)\<close>: both arguments are clamped to
  \<open>[0, length]\<close> (a negative one becomes 0) and swapped when \<open>start > end\<close>.\<close>

definition substring :: "string \<Rightarrow> int \<Rightarrow> int \<Rightarrow> string" where
  "substring s start end =
     (let len = int (length s);
          finalStart = min (max start 0) len;
          finalEnd = min (max end 0) len;
          from = min finalStart finalEnd;
          to = max finalStart finalEnd
      in take (nat (to - from)) (drop (nat from) s))"

text \<open>\<^verbatim>\<open>String.prototype.includes\<close> with a one-character pattern.\<close>

definition str_includes :: "string \<Rightarrow> char \<Rightarrow> bool" where
  "str_includes s c = (indexOf s c \<noteq> - 1)"

text \<open>\<^verbatim>\<open>Array.prototype.slice(start, end)\<close>: a negative index counts from the end; the
  result is a fresh array.\<close>

definition js_slice :: "'a list \<Rightarrow> int \<Rightarrow> int \<Rightarrow> 'a list" where
  "js_slice xs start end =
     (let len = int (length xs);
          k = (if start < 0 then max (len + start) 0 else min start len);
          final = (if end < 0 then max (len + end) 0 else min end len)
      in take (nat (final - k)) (drop (nat k) xs))"

section \<open>Key derivation\<close>

text \<open>\<^verbatim>\<open>getGroupKey\<close> (index.ts and edit.ts have the same body).\<close>

definition getGroupKey :: "string \<Rightarrow> string" where
  "getGroupKey filename =
     (let key = filename;
          firstDotIndex = indexOf key CHR ''.'';
          firstPart = substring key 0 firstDotIndex
      in firstPart)"

section \<open>Earliest date of a group\<close>

text \<open>\<^verbatim>\<open>findEarliestDateInGroup\<close>: the loop carries \<^verbatim>\<open>earliestDate\<close>.\<close>

fun findEarliestLoop :: "int option \<Rightarrow> FileInfo list \<Rightarrow> int option" where
  "findEarliestLoop earliestDate [] = earliestDate"
| "findEarliestLoop earliestDate (file # files) =
     (case lastModified file of
        None \<Rightarrow> findEarliestLoop earliestDate files
      | Some t \<Rightarrow>
          (case earliestDate of
             None \<Rightarrow> findEarliestLoop (Some t) files
           | Some e \<Rightarrow> if t < e then findEarliestLoop (Some t) files
                       else findEarliestLoop earliestDate files))"

definition findEarliestDateInGroup :: "FileInfo list \<Rightarrow> int option" where
  "findEarliestDateInGroup files = findEarliestLoop None files"

section \<open>Grouping\<close>

text \<open>The state of the \<^verbatim>\<open>for await\<close> loop of \<^verbatim>\<open>listAndGroupContainerFiles\<close>: the map, the
  store its arrays live in, and the two counters.\<close>

record GroupState =
  groupedFiles :: GroupMap
  store :: heap
  totalFilesConsidered :: nat
  nestedFileCount :: nat

definition emptyGroupState :: "GroupState" where
  "emptyGroupState =
     \<lparr>groupedFiles = [], store = [], totalFilesConsidered = 0, nestedFileCount = 0\<rparr>"

definition toFileInfo :: "BlobItem \<Rightarrow> FileInfo" where
  "toFileInfo blob = \<lparr>name = blob_name blob, lastModified = blob_lastModified blob\<rparr>"

text \<open>One iteration of the loop body.\<close>

definition groupStep :: "GroupState \<Rightarrow> BlobItem \<Rightarrow> GroupState" where
  "groupStep st blob =
     (let st1 = st\<lparr>totalFilesConsidered := totalFilesConsidered st + 1\<rparr>
      in if str_includes (blob_name blob) CHR ''/''
         then st1\<lparr>nestedFileCount := nestedFileCount st1 + 1\<rparr>
         else
           (let groupKey = getGroupKey (blob_name blob);
                fileInfo = toFileInfo blob;
                st2 = (if \<not> map_has (groupedFiles st1) groupKey
                       then (let (r, h) = alloc (store st1)
                             in st1\<lparr>groupedFiles := map_set (groupedFiles st1) groupKey r,
                                    store := h\<rparr>)
                       else st1)
            in (case map_get (groupedFiles st2) groupKey of
                  None \<Rightarrow> st2
                | Some r \<Rightarrow> st2\<lparr>store := push (store st2) r fileInfo\<rparr>)))"

fun groupLoop :: "GroupState \<Rightarrow> BlobItem list \<Rightarrow> GroupState" where
  "groupLoop st [] = st"
| "groupLoop st (blob # blobs) = groupLoop (groupStep st blob) blobs"

definition groupBlobs :: "BlobItem list \<Rightarrow> GroupState" where
  "groupBlobs blobs = groupLoop emptyGroupState blobs"

text \<open>The group a key denotes in a state: the array its reference points to.\<close>

definition groupOf :: "GroupState \<Rightarrow> string \<Rightarrow> FileInfo list option" where
  "groupOf st k = map_option (\<lambda>r. store st ! r) (map_get (groupedFiles st) k)"


section \<open>Sorting\<close>

text \<open>
  \<^verbatim>\<open>Array.prototype.sort(compareFn)\<close> is a stable sort driven by the sign of the
  comparator. For a comparator that is a total preorder, every conforming
  implementation returns the same array, the one computed here by stable insertion
  (an element goes before the first element it does not compare greater than). For
  any other comparator the language leaves the order to the implementation; the
  function below is then one admissible behaviour.
\<close>

fun js_insert :: "('a \<Rightarrow> 'a \<Rightarrow> int) \<Rightarrow> 'a \<Rightarrow> 'a list \<Rightarrow> 'a list" where
  "js_insert cmp x [] = [x]"
| "js_insert cmp x (y # ys) = (if cmp x y \<le> 0 then x # y # ys else y # js_insert cmp x ys)"

fun js_sort :: "('a \<Rightarrow> 'a \<Rightarrow> int) \<Rightarrow> 'a list \<Rightarrow> 'a list" where
  "js_sort cmp [] = []"
| "js_sort cmp (x # xs) = js_insert cmp x (js_sort cmp xs)"

text \<open>The comparator of \<^verbatim>\<open>sortedGroupEntries\<close>; an entry is a key with the reference to
  its array, read in the store \<open>h\<close>.\<close>

definition compareGroups :: "heap \<Rightarrow> string \<times> ref \<Rightarrow> string \<times> ref \<Rightarrow> int" where
  "compareGroups h a b =
     (let earliestA = findEarliestDateInGroup (h ! snd a);
          earliestB = findEarliestDateInGroup (h ! snd b)
      in case earliestA of
           None \<Rightarrow> (case earliestB of None \<Rightarrow> 0 | Some tb \<Rightarrow> 1)
         | Some ta \<Rightarrow> (case earliestB of None \<Rightarrow> - 1 | Some tb \<Rightarrow> ta - tb))"

definition sortedGroupEntries :: "heap \<Rightarrow> GroupMap \<Rightarrow> (string \<times> ref) list" where
  "sortedGroupEntries h grouped = js_sort (compareGroups h) grouped"

text \<open>The comparator of \<^verbatim>\<open>saveEarliestFileRecords\<close>.\<close>

definition compareLastModified :: "FileInfo \<Rightarrow> FileInfo \<Rightarrow> int" where
  "compareLastModified a b =
     (case lastModified a of
        None \<Rightarrow> 0
      | Some ta \<Rightarrow> (case lastModified b of None \<Rightarrow> 0 | Some tb \<Rightarrow> ta - tb))"

section \<open>The saving phase\<close>

text \<open>
  What the saving phase takes from its platform: the date formatter (luxon's
  \<^verbatim>\<open>toFormat("yyyy-MM-dd HH:mm:ss ZZZZ")\<close>), \<^verbatim>\<open>String.prototype.localeCompare\<close>, whether
  the output directory exists, and whether \<^verbatim>\<open>mkdirSync\<close> and each write succeed (a
  failing one throws).
\<close>

datatype content = Text string | Csv "FileInfo list" | Json "FileInfo list"

datatype effect = MkDir string | WriteFile string content

datatype error = MkdirError | WriteError string

record Platform =
  toFormat :: "int \<Rightarrow> string"
  localeCompare :: "string \<Rightarrow> string \<Rightarrow> int"
  dirExists :: bool
  mkdirOk :: bool
  writeOk :: "string \<Rightarrow> content \<Rightarrow> bool"

record SaveState =
  memory :: heap
  earliestTotals :: "FileInfo list"
  alldata :: "FileInfo list"
  effects :: "effect list"
  filesSavedCount :: nat

text \<open>A computation inside the \<^verbatim>\<open>try\<close> block either completes with a state or throws,
  leaving the state reached so far.\<close>

type_synonym outcome = "(error \<times> SaveState) + SaveState"

definition andThen :: "outcome \<Rightarrow> (SaveState \<Rightarrow> outcome) \<Rightarrow> outcome" where
  "andThen m f = (case m of Inl e \<Rightarrow> Inl e | Inr s \<Rightarrow> f s)"

definition writeFile :: "Platform \<Rightarrow> string \<Rightarrow> content \<Rightarrow> SaveState \<Rightarrow> outcome" where
  "writeFile P path c s =
     (if writeOk P path c then Inr (s\<lparr>effects := effects s @ [WriteFile path c]\<rparr>)
      else Inl (WriteError path, s))"

definition outputDir :: string where
  "outputDir = ''./output''"

text \<open>\<^verbatim>\<open>path.join(dir, file)\<close> for a file name without separators: the two parts joined
  by \<open>/\<close>, normalised, which removes a leading \<open>./\<close>.\<close>

definition path_join :: "string \<Rightarrow> string \<Rightarrow> string" where
  "path_join dir file = (if take 2 dir = ''./'' then drop 2 dir else dir) @ ''/'' @ file"

text \<open>\<^verbatim>\<open>groupKey.replace(/[^a-zA-Z0-9-.]/g, '_')\<close>.\<close>

definition safeChar :: "char \<Rightarrow> bool" where
  "safeChar c =
     (let n = (of_char c :: nat)
      in (97 \<le> n \<and> n \<le> 122) \<or> (65 \<le> n \<and> n \<le> 90) \<or> (48 \<le> n \<and> n \<le> 57)
         \<or> c = CHR ''-'' \<or> c = CHR ''.'')"

definition sanitize :: "string \<Rightarrow> string" where
  "sanitize groupKey = map (\<lambda>c. if safeChar c then c else CHR ''_'') groupKey"

definition newline :: string where
  "newline = [CHR 0x0A]"

definition formatDate :: "Platform \<Rightarrow> int option \<Rightarrow> string" where
  "formatDate P d = (case d of Some t \<Rightarrow> toFormat P t | None \<Rightarrow> ''N/A'')"

definition fileLine :: "Platform \<Rightarrow> FileInfo \<Rightarrow> string" where
  "fileLine P file =
     ''- '' @ name file @ '' (Last Modified: '' @ formatDate P (lastModified file) @ '')''
       @ newline"

definition compareNames :: "Platform \<Rightarrow> FileInfo \<Rightarrow> FileInfo \<Rightarrow> int" where
  "compareNames P a b = localeCompare P (name a) (name b)"

text \<open>The body of the \<^verbatim>\<open>for\<close> loop of \<^verbatim>\<open>reorderAndSaveGroupedFiles\<close> for a group of at
  least three files. \<^verbatim>\<open>filesInGroup.sort\<close> sorts the array in place, through the
  reference \<open>r\<close>.\<close>

definition saveGroup :: "Platform \<Rightarrow> string \<Rightarrow> ref \<Rightarrow> SaveState \<Rightarrow> outcome" where
  "saveGroup P groupKey r s =
     (let filesInGroup = memory s ! r;
          filesToSave = js_slice filesInGroup 0 (- 2);
          s1 = (if length filesToSave > 0
                then s\<lparr>earliestTotals := earliestTotals s @ js_slice filesInGroup 0 (- 2)\<rparr>
                else s);
          safeGroupKey = sanitize groupKey;
          outputFilePath = path_join outputDir (safeGroupKey @ ''.txt'');
          fileContent0 = ''Group Name: '' @ groupKey @ newline
             @ ''Earliest Modified: '' @ formatDate P (findEarliestDateInGroup filesInGroup)
             @ newline @ newline;
          sortedFiles = js_sort (compareNames P) filesInGroup;
          s2 = s1\<lparr>memory := (memory s1)[r := sortedFiles]\<rparr>;
          fileContent = fileContent0 @ concat (map (fileLine P) sortedFiles)
             @ newline @ ''--- End of Group '' @ groupKey @ '' ---'' @ newline @ newline;
          s3 = s2\<lparr>alldata := alldata s2 @ sortedFiles\<rparr>
      in andThen (writeFile P outputFilePath (Text fileContent) s3)
           (\<lambda>s4. Inr (s4\<lparr>filesSavedCount := filesSavedCount s4 + 1\<rparr>)))"

fun saveGroups :: "Platform \<Rightarrow> (string \<times> ref) list \<Rightarrow> SaveState \<Rightarrow> outcome" where
  "saveGroups P [] s = Inr s"
| "saveGroups P ((groupKey, r) # rest) s =
     (if length (memory s ! r) < 3 then saveGroups P rest s
      else andThen (saveGroup P groupKey r s) (saveGroups P rest))"

text \<open>\<^verbatim>\<open>writeToCsv\<close> and \<^verbatim>\<open>writeToJson\<close> (file-writer.ts), behind the guard
  \<^verbatim>\<open>alldata.length > 0\<close>.\<close>

definition writeToCsv :: "Platform \<Rightarrow> FileInfo list \<Rightarrow> string \<Rightarrow> SaveState \<Rightarrow> outcome" where
  "writeToCsv P fileInfo fileName s = writeFile P (''./output/'' @ fileName) (Csv fileInfo) s"

definition writeToJson :: "Platform \<Rightarrow> FileInfo list \<Rightarrow> string \<Rightarrow> SaveState \<Rightarrow> outcome" where
  "writeToJson P fileInfo fileName s = writeFile P (''./output/'' @ fileName) (Json fileInfo) s"

definition writeAggregates :: "Platform \<Rightarrow> SaveState \<Rightarrow> outcome" where
  "writeAggregates P s =
     (if length (alldata s) > 0
      then andThen (writeToCsv P (alldata s) ''alldata.csv'' s)
             (\<lambda>s1. writeToJson P (alldata s1) ''alldata.json'' s1)
      else Inr s)"

text \<open>\<^verbatim>\<open>saveEarliestFileRecords\<close>; the array is sorted in place.\<close>

definition earliestContent :: "Platform \<Rightarrow> FileInfo list \<Rightarrow> string" where
  "earliestContent P sortedTotals =
     ''Earliest Totals:'' @ newline @ newline @ concat (map (fileLine P) sortedTotals)"

definition saveEarliestFileRecords :: "Platform \<Rightarrow> string \<Rightarrow> SaveState \<Rightarrow> outcome" where
  "saveEarliestFileRecords P dir s =
     (if length (earliestTotals s) > 0
      then (let earliestOutputFilePath = path_join dir ''earliest_totals.txt'';
                sortedTotals = js_sort compareLastModified (earliestTotals s);
                s1 = s\<lparr>earliestTotals := sortedTotals\<rparr>
            in writeFile P earliestOutputFilePath (Text (earliestContent P sortedTotals)) s1)
      else Inr s)"

definition ensureOutputDir :: "Platform \<Rightarrow> SaveState \<Rightarrow> outcome" where
  "ensureOutputDir P s =
     (if \<not> dirExists P
      then (if mkdirOk P then Inr (s\<lparr>effects := effects s @ [MkDir outputDir]\<rparr>)
            else Inl (MkdirError, s))
      else Inr s)"

definition initialSaveState :: "heap \<Rightarrow> SaveState" where
  "initialSaveState h =
     \<lparr>memory = h, earliestTotals = [], alldata = [], effects = [], filesSavedCount = 0\<rparr>"

text \<open>The \<^verbatim>\<open>try\<close> block of \<^verbatim>\<open>reorderAndSaveGroupedFiles\<close>, and the function itself, whose
  \<^verbatim>\<open>catch\<close> logs the error and returns.\<close>

definition saveAll :: "Platform \<Rightarrow> GroupMap \<Rightarrow> heap \<Rightarrow> outcome" where
  "saveAll P grouped h =
     andThen (ensureOutputDir P (initialSaveState h))
       (\<lambda>s. andThen (saveGroups P (sortedGroupEntries (memory s) grouped) s)
          (\<lambda>s. andThen (writeAggregates P s)
             (\<lambda>s. saveEarliestFileRecords P outputDir s)))"

definition reorderAndSaveGroupedFiles ::
  "Platform \<Rightarrow> GroupMap \<Rightarrow> heap \<Rightarrow> error option \<times> SaveState" where
  "reorderAndSaveGroupedFiles P grouped h =
     (case saveAll P grouped h of
        Inl (e, s) \<Rightarrow> (Some e, s)
      | Inr s \<Rightarrow> (None, s))"

section \<open>Deletion utility\<close>







section \<open>A concrete platform and example data\<close>

text \<open>
  A comparison of names character by character, by character code. On names made of
  lower-case ASCII letters, digits and dots that differ first at a letter, as in the
  examples below, \<^verbatim>\<open>localeCompare\<close> gives the same sign. On the sample platform
  every date prints as \<open>T\<close>, the output directory is missing and every operation
  succeeds.
\<close>

fun codeCompare :: "string \<Rightarrow> string \<Rightarrow> int" where
  "codeCompare [] [] = 0"
| "codeCompare [] (y # ys) = - 1"
| "codeCompare (x # xs) [] = 1"
| "codeCompare (x # xs) (y # ys) =
     (if (of_char x :: nat) < of_char y then - 1
      else if (of_char y :: nat) < of_char x then 1
      else codeCompare xs ys)"

definition samplePlatform :: Platform where
  "samplePlatform =
     \<lparr>toFormat = (\<lambda>t. ''T''), localeCompare = codeCompare,
      dirExists = False, mkdirOk = True, writeOk = (\<lambda>path c. True)\<rparr>"

definition blob :: "string \<Rightarrow> int option \<Rightarrow> BlobItem" where
  "blob n t = \<lparr>blob_name = n, blob_lastModified = t\<rparr>"

definition mkFile :: "string \<Rightarrow> int option \<Rightarrow> FileInfo" where
  "mkFile n t = \<lparr>name = n, lastModified = t\<rparr>"

text \<open>A listing of one group of six files, two of them without a timestamp, and a state
  whose excess records all have timestamps.\<close>

definition absentListing :: "BlobItem list" where
  "absentListing =
     [blob ''f.1.js'' (Some 5), blob ''f.2.js'' None, blob ''f.3.js'' None,
      blob ''f.4.js'' (Some 3), blob ''f.5.js'' (Some 10), blob ''f.6.js'' (Some 11)]"


text \<open>A listing with a group of three files and a group of one; a group of three files
  listed out of name order; a listing whose only group has two files; a group of five
  files listed in descending order of name and of timestamp; a listing of three
  unrelated files without extension.\<close>

definition mixedListing :: "BlobItem list" where
  "mixedListing =
     [blob ''main.b.js'' (Some 1), blob ''main.a.js'' (Some 2), blob ''README'' (Some 3),
      blob ''main.c.js'' (Some 4)]"

definition unsortedListing :: "BlobItem list" where
  "unsortedListing =
     [blob ''main.b.js'' (Some 1), blob ''main.a.js'' (Some 2), blob ''main.c.js'' (Some 3)]"

definition smallListing :: "BlobItem list" where
  "smallListing = [blob ''app.1.js'' (Some 1), blob ''app.2.js'' (Some 2)]"

definition fiveListing :: "BlobItem list" where
  "fiveListing =
     [blob ''m.e.js'' (Some 5), blob ''m.d.js'' (Some 4), blob ''m.c.js'' (Some 3),
      blob ''m.b.js'' (Some 2), blob ''m.a.js'' (Some 1)]"

definition extensionlessListing :: "BlobItem list" where
  "extensionlessListing =
     [blob ''README'' (Some 1), blob ''LICENSE'' (Some 2), blob ''Makefile'' (Some 3)]"


section \<open>Notions used in the statements\<close>

text \<open>The blobs of a listing that the grouping loop puts under the key \<open>k\<close>, and the
  invariant of the loop after the blobs \<open>bs\<close>: references are the indices of the store,
  keys are distinct, and each key's array holds the records of its blobs in listing
  order.\<close>

definition inGroup :: "string \<Rightarrow> BlobItem \<Rightarrow> bool" where
  "inGroup k b = (\<not> str_includes (blob_name b) CHR ''/'' \<and> getGroupKey (blob_name b) = k)"

definition group_inv :: "BlobItem list \<Rightarrow> GroupState \<Rightarrow> bool" where
  "group_inv bs st =
     (map snd (groupedFiles st) = [0..<length (store st)]
      \<and> distinct (map fst (groupedFiles st))
      \<and> totalFilesConsidered st = length bs
      \<and> nestedFileCount st = length (filter (\<lambda>b. str_includes (blob_name b) CHR ''/'') bs)
      \<and> (\<forall>k. (map_of (groupedFiles st) k = None) = (filter (inGroup k) bs = []))
      \<and> (\<forall>k r. map_of (groupedFiles st) k = Some r \<longrightarrow>
             store st ! r = map toFileInfo (filter (inGroup k) bs))
      \<and> mset (concat (store st)) =
          mset (map toFileInfo (filter (\<lambda>b. \<not> str_includes (blob_name b) CHR ''/'') bs)))"

text \<open>The defined timestamps of a group, the earliest date of the group an entry refers
  to, and the order of the group sort: a defined date is before an absent one.\<close>

definition definedTimes :: "FileInfo list \<Rightarrow> int list" where
  "definedTimes files = map (\<lambda>f. the (lastModified f)) (filter (\<lambda>f. lastModified f \<noteq> None) files)"

definition earliestOf :: "heap \<Rightarrow> string \<times> ref \<Rightarrow> int option" where
  "earliestOf h e = findEarliestDateInGroup (h ! snd e)"

definition earliestLe :: "int option \<Rightarrow> int option \<Rightarrow> bool" where
  "earliestLe a b =
     (case b of None \<Rightarrow> True | Some tb \<Rightarrow> (case a of None \<Rightarrow> False | Some ta \<Rightarrow> ta \<le> tb))"

definition sortKey :: "int option \<Rightarrow> bool \<times> int" where
  "sortKey d = (case d of None \<Rightarrow> (True, 0) | Some t \<Rightarrow> (False, t))"


text \<open>The retained part of a group in the words of the specification, "the last two
  elements" (\<^verbatim>\<open>slice(-2)\<close>); the program itself only builds the other part,
  \<^verbatim>\<open>filesInGroup.slice(0, -2)\<close>.\<close>

definition keptRecords :: "'a list \<Rightarrow> 'a list" where
  "keptRecords g = js_slice g (- 2) (int (length g))"

text \<open>The state a computation ends in, whether it completed or threw.\<close>

definition stateOf :: "outcome \<Rightarrow> SaveState" where
  "stateOf out = (case out of Inl (e, s) \<Rightarrow> s | Inr s \<Rightarrow> s)"

text \<open>Names for parts of the loop body of the saving phase: the path and the text of a
  group's report, and the state after the in-place sort, before the report is
  written.\<close>

definition groupPath :: "string \<Rightarrow> string" where
  "groupPath groupKey = path_join outputDir (sanitize groupKey @ ''.txt'')"

definition groupReport :: "Platform \<Rightarrow> string \<Rightarrow> FileInfo list \<Rightarrow> string" where
  "groupReport P groupKey filesInGroup =
     ''Group Name: '' @ groupKey @ newline
       @ ''Earliest Modified: '' @ formatDate P (findEarliestDateInGroup filesInGroup)
       @ newline @ newline
       @ concat (map (fileLine P) (js_sort (compareNames P) filesInGroup))
       @ newline @ ''--- End of Group '' @ groupKey @ '' ---'' @ newline @ newline"

definition afterSort :: "Platform \<Rightarrow> ref \<Rightarrow> SaveState \<Rightarrow> SaveState" where
  "afterSort P r s =
     s\<lparr>earliestTotals := earliestTotals s @ js_slice (memory s ! r) 0 (- 2),
       memory := (memory s)[r := js_sort (compareNames P) (memory s ! r)],
       alldata := alldata s @ js_sort (compareNames P) (memory s ! r)\<rparr>"





section \<open>Properties of key derivation\<close>

lemma indexOf_notin: "c \<notin> set s \<Longrightarrow> indexOf s c = - 1"
  by (induction s) (auto simp: Let_def)

lemma indexOf_in: "c \<in> set s \<Longrightarrow> indexOf s c = int (length (takeWhile (\<lambda>x. x \<noteq> c) s))"
  by (induction s) (auto simp: Let_def indexOf_notin)

lemma str_includes_iff: "str_includes s c \<longleftrightarrow> c \<in> set s"
  using indexOf_in[of c s] indexOf_notin[of c s] by (auto simp: str_includes_def)

text \<open>With a dot in the name, the key is the part before the first dot.\<close>

lemma getGroupKey_dot:
  assumes "CHR ''.'' \<in> set n"
  shows "getGroupKey n = takeWhile (\<lambda>x. x \<noteq> CHR ''.'') n"
proof -
  let ?p = "takeWhile (\<lambda>x. x \<noteq> CHR ''.'') n"
  have l: "length ?p \<le> length n" by (rule length_takeWhile_le)
  have "take (length ?p) n = ?p"
    by (metis append_eq_conv_conj takeWhile_dropWhile_id)
  with l show ?thesis
    by (simp add: getGroupKey_def substring_def indexOf_in[OF assms] Let_def min_def max_def)
qed

text \<open>Without a dot, \<^verbatim>\<open>indexOf\<close> gives \<open>-1\<close>, \<^verbatim>\<open>substring(0, -1)\<close> is empty, and so is the
  key.\<close>

lemma getGroupKey_nodot: "CHR ''.'' \<notin> set n \<Longrightarrow> getGroupKey n = []"
  by (simp add: getGroupKey_def substring_def indexOf_notin Let_def)

text \<open>
  Claim C1. For a name with a dot the key is the part before the first dot
  (\<open>getGroupKey_dot\<close>); for a name without a dot the claim asks for the whole name. On
  the name \<open>README\<close> the function returns the empty string, not the name.
\<close>

theorem getGroupKey_README: "getGroupKey ''README'' = [] \<and> getGroupKey ''README'' \<noteq> ''README''"
  by (simp add: getGroupKey_def substring_def Let_def)

section \<open>Properties of grouping\<close>

lemma groupLoop_snoc: "groupLoop st (bs @ [b]) = groupStep (groupLoop st bs) b"
  by (induction bs arbitrary: st) auto

lemma map_set_fresh: "map_of m k = None \<Longrightarrow> map_set m k r = m @ [(k, r)]"
  by (induction m) (auto split: if_splits)

lemma mset_concat_push:
  "r < length h \<Longrightarrow> mset (concat (h[r := h ! r @ [x]])) = add_mset x (mset (concat h))"
proof (induction h arbitrary: r)
  case Nil
  then show ?case by simp
next
  case (Cons g h)
  then show ?case by (cases r) simp_all
qed


lemma refs_inj:
  assumes "map snd m = [0..<n]" "map_of m k = Some r" "map_of m k' = Some r" 
  shows "k = k'"
proof -
  have d: "distinct (map snd m)" using assms(1) by simp
  have "(k, r) \<in> set m" "(k', r) \<in> set m" using assms(2,3) by (auto dest: map_of_SomeD)
  moreover have "inj_on snd (set m)" using d by (simp add: distinct_map)
  ultimately have "(k, r) = (k', r)" using inj_onD[of snd "set m" "(k, r)" "(k', r)"] by simp
  then show ?thesis by simp
qed

lemma refs_bound:
  assumes "map snd m = [0..<n]" "map_of m k = Some r" shows "r < n"
proof -
  have "r \<in> set (map snd m)" using assms(2) by (force dest: map_of_SomeD)
  then show ?thesis using assms(1) by simp
qed



lemma map_of_snoc:
  "map_of (m @ [(k0, v)]) k =
     (case map_of m k of Some r \<Rightarrow> Some r | None \<Rightarrow> if k = k0 then Some v else None)"
  by (simp add: map_add_def split: option.splits)

lemma groupStep_nested:
  "str_includes (blob_name b) CHR ''/'' \<Longrightarrow>
   groupStep st b = st\<lparr>totalFilesConsidered := totalFilesConsidered st + 1,
                         nestedFileCount := nestedFileCount st + 1\<rparr>"
  by (simp add: groupStep_def)

lemma groupStep_fresh:
  "\<not> str_includes (blob_name b) CHR ''/'' \<Longrightarrow>
   map_of (groupedFiles st) (getGroupKey (blob_name b)) = None \<Longrightarrow>
   groupStep st b = st\<lparr>totalFilesConsidered := totalFilesConsidered st + 1,
       groupedFiles := groupedFiles st @ [(getGroupKey (blob_name b), length (store st))],
       store := store st @ [[toFileInfo b]]\<rparr>"
  by (simp add: groupStep_def map_has_def map_get_def alloc_def push_def map_set_fresh Let_def
      map_of_snoc del: map_of_append)

lemma groupStep_known:
  "\<not> str_includes (blob_name b) CHR ''/'' \<Longrightarrow>
   map_of (groupedFiles st) (getGroupKey (blob_name b)) = Some r \<Longrightarrow>
   groupStep st b = st\<lparr>totalFilesConsidered := totalFilesConsidered st + 1,
       store := (store st)[r := store st ! r @ [toFileInfo b]]\<rparr>"
  by (simp add: groupStep_def map_has_def map_get_def push_def Let_def)

lemma group_inv_step:
  assumes inv: "group_inv bs st" shows "group_inv (bs @ [b]) (groupStep st b)"
proof (cases "str_includes (blob_name b) CHR ''/''")
  case True
  then show ?thesis using assms by (auto simp: group_inv_def groupStep_nested inGroup_def)
next
  case False
  let ?k = "getGroupKey (blob_name b)"
  let ?gm = "groupedFiles st"
  let ?h = "store st"
  have kb: "inGroup k b \<longleftrightarrow> k = ?k" for k using False by (auto simp: inGroup_def)
  from inv have A1: "map snd ?gm = [0..<length ?h]"
    and A2: "distinct (map fst ?gm)"
    and A3: "totalFilesConsidered st = length bs"
    and A4: "nestedFileCount st = length (filter (\<lambda>b. str_includes (blob_name b) CHR ''/'') bs)"
    and A5: "\<And>k. (map_of ?gm k = None) = (filter (inGroup k) bs = [])"
    and A6: "\<And>k r. map_of ?gm k = Some r \<Longrightarrow> ?h ! r = map toFileInfo (filter (inGroup k) bs)"
    and A7: "mset (concat ?h) =
          mset (map toFileInfo (filter (\<lambda>b. \<not> str_includes (blob_name b) CHR ''/'') bs))"
    by (simp_all add: group_inv_def)
  show ?thesis
  proof (cases "map_of ?gm ?k")
    case None
    have nk: "?k \<notin> fst ` set ?gm" using None by (simp add: map_of_eq_None_iff)
    have e: "filter (inGroup ?k) bs = []" using None A5 by simp
    have B5: "(map_of (?gm @ [(?k, length ?h)]) k = None) = (filter (inGroup k) (bs @ [b]) = [])" for k
      using A5[of k] None by (auto simp: map_of_snoc kb simp del: map_of_append split: option.splits)
    have B6: "(?h @ [[toFileInfo b]]) ! r = map toFileInfo (filter (inGroup k) (bs @ [b]))"
      if "map_of (?gm @ [(?k, length ?h)]) k = Some r" for k r
    proof (cases "map_of ?gm k")
      case None
      then have "k = ?k" "r = length ?h" using that
        by (simp_all add: map_of_snoc del: map_of_append split: if_splits)
      then show ?thesis using e by (simp add: kb)
    next
      case (Some r')
      then have r: "r = r'" using that by (simp add: map_of_snoc del: map_of_append)
      have "k \<noteq> ?k" using Some \<open>map_of ?gm ?k = None\<close> by auto
      moreover have "r' < length ?h" using refs_bound[OF A1 Some] .
      ultimately show ?thesis using A6[OF Some] r by (simp add: kb nth_append)
    qed
    show ?thesis
      unfolding group_inv_def groupStep_fresh[OF False None]
    proof (intro conjI allI impI, goal_cases)
      case 1 show ?case using A1 by simp
    next
      case 2 show ?case using A2 nk by simp
    next
      case 3 show ?case using A3 by simp
    next
      case 4 show ?case using A4 False by simp
    next
      case (5 k) show ?case using B5[of k] by (simp del: map_of_append)
    next
      case (6 k r) then show ?case using B6[of k r] by (simp del: map_of_append)
    next
      case 7 show ?case using A7 False by simp
    qed
  next
    case (Some r)
    have rb: "r < length ?h" using refs_bound[OF A1 Some] .
    have B5: "(map_of ?gm k = None) = (filter (inGroup k) (bs @ [b]) = [])" for k
      using A5[of k] Some by (auto simp: kb)
    have B6: "?h[r := ?h ! r @ [toFileInfo b]] ! r' = map toFileInfo (filter (inGroup k) (bs @ [b]))"
      if "map_of ?gm k = Some r'" for k r'
    proof (cases "k = ?k")
      case True
      then have "r' = r" using that Some by simp
      then show ?thesis using A6[OF Some] rb True by (simp add: kb)
    next
      case False
      then have "r' \<noteq> r" using refs_inj[OF A1 that] Some by auto
      then show ?thesis using A6[OF that] False by (simp add: kb)
    qed
    show ?thesis
      unfolding group_inv_def groupStep_known[OF False Some]
    proof (intro conjI allI impI, goal_cases)
      case 1 show ?case using A1 by simp
    next
      case 2 show ?case using A2 by simp
    next
      case 3 show ?case using A3 by simp
    next
      case 4 show ?case using A4 False by simp
    next
      case (5 k) show ?case using B5[of k] by simp
    next
      case (6 k r) then show ?case using B6[of k r] by simp
    next
      case 7 show ?case using A7 False rb by (simp add: mset_concat_push)
    qed
  qed
qed

lemma group_inv_init: "group_inv [] emptyGroupState"
  by (simp add: group_inv_def emptyGroupState_def)

lemma group_inv_groupBlobs: "group_inv bs (groupBlobs bs)"
  unfolding groupBlobs_def
  by (induction bs rule: rev_induct) (simp_all add: group_inv_init groupLoop_snoc group_inv_step)






section \<open>Properties of sorting\<close>

lemma mset_js_insert: "mset (js_insert cmp x xs) = add_mset x (mset xs)"
  by (induction xs) auto

lemma mset_js_sort: "mset (js_sort cmp xs) = mset xs"
  by (induction xs) (auto simp: mset_js_insert)

lemma set_js_sort: "set (js_sort cmp xs) = set xs"
  using mset_js_sort[of cmp xs] by (metis set_mset_mset)

lemma length_js_sort: "length (js_sort cmp xs) = length xs"
  using mset_js_sort[of cmp xs] by (rule mset_eq_length)

lemma js_insert_insort_key:
  assumes "\<And>a b. (cmp a b \<le> 0) = (f a \<le> f b)"
  shows "js_insert cmp x xs = insort_key f x xs"
  by (induction xs) (simp_all add: assms)

lemma js_sort_sort_key:
  assumes "\<And>a b. (cmp a b \<le> 0) = (f a \<le> f b)"
  shows "js_sort cmp xs = sort_key f xs"
  by (induction xs) (simp_all add: js_insert_insort_key[OF assms])

lemma definedTimes_Nil: "definedTimes [] = []"
  by (simp add: definedTimes_def)

lemma definedTimes_Cons:
  "definedTimes (f # files) =
     (case lastModified f of None \<Rightarrow> definedTimes files | Some t \<Rightarrow> t # definedTimes files)"
  by (simp add: definedTimes_def split: option.splits)

lemma Min_insert_absorb:
  fixes a t :: int
  assumes "finite S" "t \<le> a"
  shows "Min (insert a (insert t S)) = Min (insert t S)"
proof -
  have "Min (insert a (insert t S)) = min a (Min (insert t S))"
    using assms(1) by (intro Min_insert) simp_all
  moreover have "Min (insert t S) \<le> t" using assms(1) by (simp add: Min_le)
  ultimately show ?thesis using assms(2) by (simp add: min_def)
qed

lemma findEarliestLoop_Some:
  "findEarliestLoop (Some a) files = Some (Min (set (a # definedTimes files)))"
proof (induction files arbitrary: a)
  case Nil
  then show ?case by (simp add: definedTimes_Nil)
next
  case (Cons f files)
  show ?case
  proof (cases "lastModified f")
    case None
    then show ?thesis using Cons.IH[of a] by (simp add: definedTimes_Cons)
  next
    case (Some t)
    show ?thesis
    proof (cases "t < a")
      case True
      then have "Min (insert a (insert t (set (definedTimes files)))) = Min (insert t (set (definedTimes files)))"
        by (intro Min_insert_absorb) simp_all
      then show ?thesis using True Some Cons.IH[of t] by (simp add: definedTimes_Cons)
    next
      case False
      then have "Min (insert t (insert a (set (definedTimes files)))) = Min (insert a (set (definedTimes files)))"
        by (intro Min_insert_absorb) simp_all
      then show ?thesis using False Some Cons.IH[of a]
        by (simp add: definedTimes_Cons insert_commute)
    qed
  qed
qed

lemma findEarliestLoop_None:
  "findEarliestLoop None files =
     (if definedTimes files = [] then None else Some (Min (set (definedTimes files))))"
proof (induction files)
  case Nil
  then show ?case by (simp add: definedTimes_Nil)
next
  case (Cons f files)
  then show ?case
    by (cases "lastModified f") (simp_all add: definedTimes_Cons findEarliestLoop_Some)
qed

lemma findEarliest_Min:
  "findEarliestDateInGroup g =
     (if definedTimes g = [] then None else Some (Min (set (definedTimes g))))"
  by (simp add: findEarliestDateInGroup_def findEarliestLoop_None)

lemma compareGroups_key:
  "(compareGroups h a b \<le> 0) = (sortKey (earliestOf h a) \<le> sortKey (earliestOf h b))"
  by (simp add: compareGroups_def sortKey_def earliestOf_def Let_def split: option.splits)

lemma sortedGroupEntries_sort_key:
  "sortedGroupEntries h gm = sort_key (\<lambda>e. sortKey (earliestOf h e)) gm"
  unfolding sortedGroupEntries_def by (rule js_sort_sort_key) (rule compareGroups_key)

lemma sortKey_le: "(sortKey a \<le> sortKey b) = earliestLe a b"
  by (auto simp: sortKey_def earliestLe_def split: option.splits)

lemma sortKey_inj: "(sortKey a = sortKey b) = (a = b)"
  by (auto simp: sortKey_def split: option.splits)

lemma sorted_split:
  assumes "sorted (map f xs)" "\<And>x y. P x \<Longrightarrow> \<not> P y \<Longrightarrow> f x < f y"
  shows "xs = filter P xs @ filter (\<lambda>x. \<not> P x) xs"
  using assms(1)
proof (induction xs)
  case Nil
  then show ?case by simp
next
  case (Cons x xs)
  show ?case
  proof (cases "P x")
    case True
    then show ?thesis using Cons by simp
  next
    case False
    have "\<not> P y" if "y \<in> set xs" for y
    proof
      assume "P y"
      then have "f y < f x" using False assms(2) by blast
      moreover have "f x \<le> f y" using Cons.prems that by simp
      ultimately show False by simp
    qed
    then have "filter P xs = []" "filter (\<lambda>x. \<not> P x) xs = xs" by (simp_all add: filter_empty_conv filter_id_conv)
    then show ?thesis using False by simp
  qed
qed

text \<open>
  Claim C5. The earliest date of a group is the minimum of its defined timestamps and
  absent when there is none. The sorted entries are a permutation of the map's
  entries, ascending by earliest date with absent dates last; entries with the same
  earliest date (absent included) keep their relative order; and the entries with an
  absent earliest date come, in their original order, after all the others.
\<close>

theorem orderGroups_sorted_stable:
  "findEarliestDateInGroup g =
     (if definedTimes g = [] then None else Some (Min (set (definedTimes g))))
   \<and> mset (sortedGroupEntries h gm) = mset gm
   \<and> sorted_wrt (\<lambda>a b. earliestLe (earliestOf h a) (earliestOf h b)) (sortedGroupEntries h gm)
   \<and> filter (\<lambda>e. earliestOf h e = d) (sortedGroupEntries h gm) = filter (\<lambda>e. earliestOf h e = d) gm
   \<and> sortedGroupEntries h gm =
       sortedGroupEntries h (filter (\<lambda>e. earliestOf h e \<noteq> None) gm)
         @ filter (\<lambda>e. earliestOf h e = None) gm"
proof -
  let ?f = "\<lambda>e. sortKey (earliestOf h e)"
  let ?out = "sortedGroupEntries h gm"
  have o: "?out = sort_key ?f gm" by (rule sortedGroupEntries_sort_key)
  have p2: "mset ?out = mset gm" by (simp add: o)
  have "sorted (map ?f ?out)" by (simp add: o)
  then have p3: "sorted_wrt (\<lambda>a b. earliestLe (earliestOf h a) (earliestOf h b)) ?out"
    by (simp add: sorted_map sortKey_le)
  have st: "filter (\<lambda>e. earliestOf h e = d) ?out = filter (\<lambda>e. earliestOf h e = d) gm" for d
    using sort_key_stable[of ?f "sortKey d" gm] by (simp add: o sortKey_inj)
  have sp: "?out = filter (\<lambda>e. earliestOf h e \<noteq> None) ?out @ filter (\<lambda>e. \<not> earliestOf h e \<noteq> None) ?out"
  proof (rule sorted_split[where f = ?f])
    show "sorted (map ?f ?out)" by (simp add: o)
    show "?f x < ?f y" if "earliestOf h x \<noteq> None" "\<not> earliestOf h y \<noteq> None" for x y
      using that by (auto simp: sortKey_def less_prod_def split: option.splits)
  qed
  have "filter (\<lambda>e. earliestOf h e \<noteq> None) ?out = sortedGroupEntries h (filter (\<lambda>e. earliestOf h e \<noteq> None) gm)"
    by (simp add: sortedGroupEntries_sort_key filter_sort)
  then have p5: "?out = sortedGroupEntries h (filter (\<lambda>e. earliestOf h e \<noteq> None) gm)
         @ filter (\<lambda>e. earliestOf h e = None) gm"
    using sp st[of None] by simp
  show ?thesis using findEarliest_Min p2 p3 st p5 by blast
qed

section \<open>Properties of the excess-only report\<close>








text \<open>A run on a group of six files whose excess records have the timestamps 5, absent,
  absent, 3: each neighbouring pair compares equal and the records stay as they were
  collected.\<close>

lemma absent_run:
  "earliestTotals (snd (reorderAndSaveGroupedFiles samplePlatform
        (groupedFiles (groupBlobs absentListing)) (store (groupBlobs absentListing))))
   = [mkFile ''f.1.js'' (Some 5), mkFile ''f.2.js'' None, mkFile ''f.3.js'' None,
      mkFile ''f.4.js'' (Some 3)]"
  by code_simp


section \<open>Properties of the retention split\<close>

lemma js_slice_excess: "3 \<le> length g \<Longrightarrow> js_slice g 0 (- 2) = take (length g - 2) g"
  by (simp add: js_slice_def Let_def nat_diff_distrib' )

lemma keptRecords_drop: "3 \<le> length g \<Longrightarrow> keptRecords g = drop (length g - 2) g"
  by (simp add: keptRecords_def js_slice_def Let_def nat_diff_distrib')


lemma saveGroup_totals:
  "earliestTotals (stateOf (saveGroup P k r s)) =
     (if length (js_slice (memory s ! r) 0 (- 2)) > 0
      then earliestTotals s @ js_slice (memory s ! r) 0 (- 2) else earliestTotals s)"
  by (simp add: saveGroup_def stateOf_def andThen_def writeFile_def Let_def)

section \<open>Properties of the saving phase\<close>

lemma saveGroup_eq:
  "saveGroup P k r s =
     (if writeOk P (groupPath k) (Text (groupReport P k (memory s ! r)))
      then Inr ((afterSort P r s)
             \<lparr>effects := effects s @ [WriteFile (groupPath k) (Text (groupReport P k (memory s ! r)))],
              filesSavedCount := filesSavedCount s + 1\<rparr>)
      else Inl (WriteError (groupPath k), afterSort P r s))"
  by (simp add: saveGroup_def groupPath_def groupReport_def afterSort_def andThen_def
      writeFile_def Let_def)

lemma stateOf_andThen:
  "stateOf (andThen m f) = (case m of Inl (e, s) \<Rightarrow> s | Inr s \<Rightarrow> stateOf (f s))"
  by (simp add: stateOf_def andThen_def split: sum.splits prod.splits)

lemma nth_update_mset:
  assumes "mset v = mset (h ! r)"
  shows "mset (h[r := v] ! i) = mset (h ! i)"
proof (cases "r < length h")
  case True
  then show ?thesis using assms by (simp add: nth_list_update)
next
  case False
  then show ?thesis by (simp add: list_update_beyond)
qed

lemma afterSort_memory_mset: "mset (memory (afterSort P r s) ! i) = mset (memory s ! i)"
  by (simp add: afterSort_def nth_update_mset mset_js_sort)

lemma saveGroup_memory_mset:
  "mset (memory (stateOf (saveGroup P k r s)) ! i) = mset (memory s ! i)"
  using afterSort_memory_mset[of P r s i] by (simp add: saveGroup_eq stateOf_def afterSort_def)

lemma saveGroups_memory_mset:
  "mset (memory (stateOf (saveGroups P es s)) ! i) = mset (memory s ! i)"
proof (induction es arbitrary: s)
  case Nil
  then show ?case by (simp add: stateOf_def)
next
  case (Cons e es)
  obtain k r where e: "e = (k, r)" by (cases e)
  show ?case
  proof (cases "length (memory s ! r) < 3")
    case True
    then show ?thesis using Cons.IH[of s] e by simp
  next
    case False
    show ?thesis
    proof (cases "saveGroup P k r s")
      case (Inl a)
      then show ?thesis using False e saveGroup_memory_mset[of P k r s i]
        by (simp add: andThen_def stateOf_def split: prod.splits)
    next
      case (Inr s1)
      then have "mset (memory s1 ! i) = mset (memory s ! i)"
        using saveGroup_memory_mset[of P k r s i] by (simp add: stateOf_def)
      then show ?thesis using False e Inr Cons.IH[of s1] by (simp add: stateOf_andThen)
    qed
  qed
qed

text \<open>Small groups can be dropped from the list of entries.\<close>

lemma saveGroups_filter:
  assumes "\<And>i. length (memory s ! i) = length (h ! i)"
  shows "saveGroups P es s = saveGroups P (filter (\<lambda>e. 3 \<le> length (h ! snd e)) es) s"
  using assms
proof (induction es arbitrary: s)
  case Nil
  then show ?case by simp
next
  case (Cons e es)
  obtain k r where e: "e = (k, r)" by (cases e)
  show ?case
  proof (cases "length (memory s ! r) < 3")
    case True
    then show ?thesis using Cons e by simp
  next
    case False
    have "andThen (saveGroup P k r s) (saveGroups P es) =
          andThen (saveGroup P k r s) (saveGroups P (filter (\<lambda>e. 3 \<le> length (h ! snd e)) es))"
    proof (cases "saveGroup P k r s")
      case (Inl a)
      then show ?thesis by (simp add: andThen_def)
    next
      case (Inr s1)
      have "mset (memory s1 ! i) = mset (memory s ! i)" for i
        using saveGroup_memory_mset[of P k r s i] Inr by (simp add: stateOf_def)
      then have "length (memory s1 ! i) = length (memory s ! i)" for i
        by (rule mset_eq_length)
      then have "saveGroups P es s1 = saveGroups P (filter (\<lambda>e. 3 \<le> length (h ! snd e)) es) s1"
        using Cons.IH[of s1] Cons.prems by simp
      then show ?thesis using Inr by (simp add: andThen_def)
    qed
    then show ?thesis using False Cons.prems e by simp
  qed
qed

lemma sortedGroupEntries_filter:
  "sortedGroupEntries h (filter Q gm) = filter Q (sortedGroupEntries h gm)"
  by (simp add: sortedGroupEntries_sort_key filter_sort)

lemma ensureOutputDir_memory:
  "ensureOutputDir P s = Inr s1 \<Longrightarrow> memory s1 = memory s"
  by (auto simp: ensureOutputDir_def split: if_splits)

lemma saveAll_filter:
  "saveAll P gm h = saveAll P (filter (\<lambda>e. 3 \<le> length (h ! snd e)) gm) h"
proof (cases "ensureOutputDir P (initialSaveState h)")
  case (Inl a)
  then show ?thesis by (simp add: saveAll_def andThen_def)
next
  case (Inr s)
  have m: "memory s = h" using ensureOutputDir_memory[OF Inr] by (simp add: initialSaveState_def)
  have "saveGroups P (sortedGroupEntries h gm) s =
        saveGroups P (sortedGroupEntries h (filter (\<lambda>e. 3 \<le> length (h ! snd e)) gm)) s"
    using saveGroups_filter[of s h P "sortedGroupEntries h gm"] m
    by (simp add: sortedGroupEntries_filter)
  then show ?thesis using Inr m by (simp add: saveAll_def andThen_def)
qed

lemma reorderAndSave_filter:
  "reorderAndSaveGroupedFiles P gm h =
   reorderAndSaveGroupedFiles P (filter (\<lambda>e. 3 \<le> length (h ! snd e)) gm) h"
  using saveAll_filter[of P gm h] by (simp add: reorderAndSaveGroupedFiles_def)

lemma set_js_slice: "set (js_slice xs a b) \<subseteq> set xs"
  unfolding js_slice_def Let_def
  by (meson set_take_subset set_drop_subset subset_trans)

lemma saveGroup_state:
  "alldata (stateOf (saveGroup P k r s)) = alldata s @ js_sort (compareNames P) (memory s ! r)"
  "earliestTotals (stateOf (saveGroup P k r s)) = earliestTotals s @ js_slice (memory s ! r) 0 (- 2)"
  by (simp_all add: saveGroup_eq stateOf_def afterSort_def)

lemma stateOf_Inr: "stateOf (Inr s) = s"
  by (simp add: stateOf_def)

lemma stateOf_andThen_Inr: "m = Inr s \<Longrightarrow> stateOf (andThen m f) = stateOf (f s)"
  by (simp add: stateOf_def andThen_def)

lemma stateOf_andThen_Inl: "m = Inl a \<Longrightarrow> stateOf (andThen m f) = stateOf m"
  by (simp add: stateOf_def andThen_def)

text \<open>Every record the loop adds to \<^verbatim>\<open>alldata\<close> or \<^verbatim>\<open>earliestTotals\<close> is in an array of
  at least three records.\<close>

lemma saveGroups_records:
  assumes "x \<in> set (alldata (stateOf (saveGroups P es s)))
           \<or> x \<in> set (earliestTotals (stateOf (saveGroups P es s)))"
  shows "x \<in> set (alldata s) \<or> x \<in> set (earliestTotals s)
         \<or> (\<exists>e\<in>set es. 3 \<le> length (memory s ! snd e) \<and> x \<in> set (memory s ! snd e))"
  using assms
proof (induction es arbitrary: s)
  case Nil
  then show ?case by (simp add: stateOf_Inr)
next
  case (Cons e es)
  obtain k r where e: "e = (k, r)" by (cases e)
  show ?case
  proof (cases "length (memory s ! r) < 3")
    case True
    then show ?thesis using Cons.IH[of s] Cons.prems e by auto
  next
    case False
    let ?s1 = "stateOf (saveGroup P k r s)"
    have in1: "y \<in> set (alldata ?s1) \<or> y \<in> set (earliestTotals ?s1) \<Longrightarrow>
        y \<in> set (alldata s) \<or> y \<in> set (earliestTotals s) \<or> y \<in> set (memory s ! r)" for y
      using set_js_slice[of "memory s ! r" 0 "- 2"] by (auto simp: saveGroup_state set_js_sort)
    show ?thesis
    proof (cases "saveGroup P k r s")
      case (Inl a)
      then have "stateOf (saveGroups P (e # es) s) = ?s1"
        using False e by (simp add: stateOf_andThen_Inl)
      then show ?thesis using in1[of x] Cons.prems False e by auto
    next
      case (Inr s1)
      then have s1: "?s1 = s1" by (simp add: stateOf_Inr)
      have "stateOf (saveGroups P (e # es) s) = stateOf (saveGroups P es s1)"
        using False e Inr by (simp add: stateOf_andThen_Inr)
      then have "x \<in> set (alldata s1) \<or> x \<in> set (earliestTotals s1)
         \<or> (\<exists>e\<in>set es. 3 \<le> length (memory s1 ! snd e) \<and> x \<in> set (memory s1 ! snd e))"
        using Cons.IH[of s1] Cons.prems by simp
      moreover have ms: "mset (memory s1 ! i) = mset (memory s ! i)" for i
        using saveGroup_memory_mset[of P k r s i] s1 by simp
      have "length (memory s1 ! i) = length (memory s ! i)" for i
        using ms[of i] by (rule mset_eq_length)
      moreover have "set (memory s1 ! i) = set (memory s ! i)" for i
        using ms[of i] by (rule mset_eq_setD)
      ultimately show ?thesis using in1[of x] s1 False e by auto
    qed
  qed
qed

lemma writeAggregates_state:
  "alldata (stateOf (writeAggregates P s)) = alldata s"
  "earliestTotals (stateOf (writeAggregates P s)) = earliestTotals s"
  "memory (stateOf (writeAggregates P s)) = memory s"
  by (simp_all add: writeAggregates_def writeToCsv_def writeToJson_def writeFile_def
      andThen_def stateOf_def)

lemma saveEarliest_state:
  "alldata (stateOf (saveEarliestFileRecords P d s)) = alldata s"
  "set (earliestTotals (stateOf (saveEarliestFileRecords P d s))) = set (earliestTotals s)"
  "memory (stateOf (saveEarliestFileRecords P d s)) = memory s"
  by (simp_all add: saveEarliestFileRecords_def writeFile_def stateOf_def Let_def set_js_sort)

lemma ensureOutputDir_state:
  "alldata (stateOf (ensureOutputDir P s)) = alldata s"
  "earliestTotals (stateOf (ensureOutputDir P s)) = earliestTotals s"
  "memory (stateOf (ensureOutputDir P s)) = memory s"
  by (simp_all add: ensureOutputDir_def stateOf_def)

lemma snd_reorderAndSave:
  "snd (reorderAndSaveGroupedFiles P gm h) = stateOf (saveAll P gm h)"
  by (simp add: reorderAndSaveGroupedFiles_def stateOf_def split: sum.splits prod.splits)

text \<open>The final state is reached from the state after the group loop by steps that keep
  \<^verbatim>\<open>alldata\<close>, the store, and the set of excess records.\<close>

lemma saveAll_after_loop:
  "\<exists>s0. memory s0 = h \<and> alldata s0 = [] \<and> earliestTotals s0 = []
     \<and> (stateOf (saveAll P gm h) = s0
        \<or> (let s1 = stateOf (saveGroups P (sortedGroupEntries h gm) s0)
           in alldata (stateOf (saveAll P gm h)) = alldata s1
            \<and> set (earliestTotals (stateOf (saveAll P gm h))) = set (earliestTotals s1)
            \<and> memory (stateOf (saveAll P gm h)) = memory s1))"
proof (cases "ensureOutputDir P (initialSaveState h)")
  case (Inl a)
  obtain e s0 where a: "a = (e, s0)" by (cases a)
  have "s0 = initialSaveState h" using Inl a by (auto simp: ensureOutputDir_def split: if_splits)
  then show ?thesis using Inl a
    by (intro exI[of _ s0]) (simp add: saveAll_def andThen_def stateOf_def initialSaveState_def)
next
  case (Inr s0)
  have m: "memory s0 = h" "alldata s0 = []" "earliestTotals s0 = []"
    using ensureOutputDir_state[of P "initialSaveState h"] Inr
    by (simp_all add: stateOf_Inr initialSaveState_def)
  let ?loop = "saveGroups P (sortedGroupEntries h gm) s0"
  have sa: "saveAll P gm h = andThen ?loop
          (\<lambda>s. andThen (writeAggregates P s) (\<lambda>s. saveEarliestFileRecords P outputDir s))"
    using Inr m by (simp add: saveAll_def andThen_def)
  show ?thesis
  proof (cases ?loop)
    case (Inl a)
    then have "stateOf (saveAll P gm h) = stateOf ?loop" by (simp add: sa stateOf_andThen_Inl)
    then show ?thesis using m by (intro exI[of _ s0]) (simp add: Let_def)
  next
    case (Inr s1)
    then have l: "stateOf ?loop = s1" by (simp add: stateOf_Inr)
    have f: "stateOf (saveAll P gm h) =
        stateOf (andThen (writeAggregates P s1) (\<lambda>s. saveEarliestFileRecords P outputDir s))"
      using Inr by (simp add: sa stateOf_andThen_Inr)
    have "alldata (stateOf (saveAll P gm h)) = alldata s1
        \<and> set (earliestTotals (stateOf (saveAll P gm h))) = set (earliestTotals s1)
        \<and> memory (stateOf (saveAll P gm h)) = memory s1"
    proof (cases "writeAggregates P s1")
      case (Inl b)
      then show ?thesis using f writeAggregates_state[of P s1]
        by (simp add: stateOf_andThen_Inl)
    next
      case (Inr s2)
      then have "stateOf (saveAll P gm h) = stateOf (saveEarliestFileRecords P outputDir s2)"
        using f by (simp add: stateOf_andThen_Inr)
      then show ?thesis using writeAggregates_state[of P s1] Inr saveEarliest_state[of P outputDir s2]
        by (simp add: stateOf_Inr)
    qed
    then show ?thesis using m l by (intro exI[of _ s0]) (simp add: Let_def)
  qed
qed

lemma run_records:
  assumes "x \<in> set (alldata (snd (reorderAndSaveGroupedFiles P gm h)))
           \<or> x \<in> set (earliestTotals (snd (reorderAndSaveGroupedFiles P gm h)))"
  shows "\<exists>e\<in>set gm. 3 \<le> length (h ! snd e) \<and> x \<in> set (h ! snd e)"
proof -
  obtain s0 where s0: "memory s0 = h" "alldata s0 = []" "earliestTotals s0 = []"
    and d: "stateOf (saveAll P gm h) = s0
        \<or> (let s1 = stateOf (saveGroups P (sortedGroupEntries h gm) s0)
           in alldata (stateOf (saveAll P gm h)) = alldata s1
            \<and> set (earliestTotals (stateOf (saveAll P gm h))) = set (earliestTotals s1)
            \<and> memory (stateOf (saveAll P gm h)) = memory s1)"
    using saveAll_after_loop[of h P gm] by blast
  let ?s1 = "stateOf (saveGroups P (sortedGroupEntries h gm) s0)"
  have x: "x \<in> set (alldata (stateOf (saveAll P gm h)))
      \<or> x \<in> set (earliestTotals (stateOf (saveAll P gm h)))"
    using assms by (simp add: snd_reorderAndSave)
  have "stateOf (saveAll P gm h) \<noteq> s0" using x s0 by auto
  then have "x \<in> set (alldata ?s1) \<or> x \<in> set (earliestTotals ?s1)"
    using d x by (auto simp: Let_def)
  then have "\<exists>e\<in>set (sortedGroupEntries h gm). 3 \<le> length (h ! snd e) \<and> x \<in> set (h ! snd e)"
    using saveGroups_records[of x P "sortedGroupEntries h gm" s0] s0 by simp
  then show ?thesis by (simp add: sortedGroupEntries_def set_js_sort)
qed

lemma toFileInfo_name: "name (toFileInfo b) = blob_name b"
  by (simp add: toFileInfo_def)

lemma group_member_key:
  assumes "map_of (groupedFiles (groupBlobs blobs)) k = Some r"
    and "x \<in> set (store (groupBlobs blobs) ! r)"
  shows "getGroupKey (name x) = k"
proof -
  have "store (groupBlobs blobs) ! r = map toFileInfo (filter (inGroup k) blobs)"
    using group_inv_groupBlobs[of blobs] assms(1) unfolding group_inv_def by blast
  then obtain b where "x = toFileInfo b" "inGroup k b" using assms(2) by auto
  then show ?thesis by (simp add: toFileInfo_name inGroup_def)
qed

text \<open>
  Claim C7. A group of fewer than three records is skipped by the loop with no change
  of state; the whole saving phase does exactly what it does on the map without such
  groups, so no file is written for them and no content depends on them; and after
  grouping a listing, no record of a group of fewer than three is among the records
  written to \<^verbatim>\<open>alldata.csv\<close> and \<^verbatim>\<open>alldata.json\<close> nor among the excess records of
  \<^verbatim>\<open>earliest_totals.txt\<close>.
\<close>

theorem small_groups_contribute_nothing:
  "(length (memory s ! r) < 3 \<longrightarrow> saveGroups P ((k, r) # rest) s = saveGroups P rest s)
   \<and> reorderAndSaveGroupedFiles P gm h =
       reorderAndSaveGroupedFiles P (filter (\<lambda>e. 3 \<le> length (h ! snd e)) gm) h
   \<and> (groupOf (groupBlobs blobs) k = Some g \<and> length g < 3 \<and> x \<in> set g \<longrightarrow>
        x \<notin> set (alldata (snd (reorderAndSaveGroupedFiles P
                 (groupedFiles (groupBlobs blobs)) (store (groupBlobs blobs)))))
        \<and> x \<notin> set (earliestTotals (snd (reorderAndSaveGroupedFiles P
                 (groupedFiles (groupBlobs blobs)) (store (groupBlobs blobs))))))"
proof -
  let ?st = "groupBlobs blobs"
  let ?res = "snd (reorderAndSaveGroupedFiles P (groupedFiles ?st) (store ?st))"
  have c: False
    if g: "groupOf ?st k = Some g" and l: "length g < 3" and x: "x \<in> set g"
      and a: "x \<in> set (alldata ?res) \<or> x \<in> set (earliestTotals ?res)"
  proof -
    obtain r0 where r0: "map_of (groupedFiles ?st) k = Some r0" "g = store ?st ! r0"
      using g by (auto simp: groupOf_def map_get_def)
    have kx: "getGroupKey (name x) = k" using group_member_key[OF r0(1)] x r0(2) by simp
    obtain e where e: "e \<in> set (groupedFiles ?st)" "3 \<le> length (store ?st ! snd e)"
        "x \<in> set (store ?st ! snd e)"
      using run_records[OF a] by blast
    have "distinct (map fst (groupedFiles ?st))"
      using group_inv_groupBlobs[of blobs] by (simp add: group_inv_def)
    then have "map_of (groupedFiles ?st) (fst e) = Some (snd e)" using e(1) by simp
    then have "getGroupKey (name x) = fst e" using group_member_key e(3) by blast
    then have "snd e = r0" using kx \<open>map_of (groupedFiles ?st) (fst e) = Some (snd e)\<close> r0(1) by simp
    then show False using e(2) l r0(2) by simp
  qed
  have "reorderAndSaveGroupedFiles P gm h =
       reorderAndSaveGroupedFiles P (filter (\<lambda>e. 3 \<le> length (h ! snd e)) gm) h"
    by (rule reorderAndSave_filter)
  moreover have "length (memory s ! r) < 3 \<longrightarrow> saveGroups P ((k, r) # rest) s = saveGroups P rest s"
    by simp
  ultimately show ?thesis using c by blast
qed

text \<open>Claim C7, witness: the group of \<open>README\<close> alone, beside a group of three.\<close>

theorem small_groups_contribute_nothing_witness:
  "groupOf (groupBlobs mixedListing) '''' = Some [mkFile ''README'' (Some 3)]
   \<and> length [mkFile ''README'' (Some 3)] < 3
   \<and> mkFile ''README'' (Some 3) \<notin> set (alldata (snd (reorderAndSaveGroupedFiles samplePlatform
                 (groupedFiles (groupBlobs mixedListing)) (store (groupBlobs mixedListing)))))
   \<and> mkFile ''README'' (Some 3) \<notin> set (earliestTotals (snd (reorderAndSaveGroupedFiles samplePlatform
                 (groupedFiles (groupBlobs mixedListing)) (store (groupBlobs mixedListing)))))"
proof -
  have g: "groupOf (groupBlobs mixedListing) '''' = Some [mkFile ''README'' (Some 3)]"
    by code_simp
  show ?thesis
    using g small_groups_contribute_nothing[where blobs = mixedListing and k = "''''"
        and g = "[mkFile ''README'' (Some 3)]" and x = "mkFile ''README'' (Some 3)"
        and P = samplePlatform]
    by simp
qed

section \<open>Properties of the aggregate files\<close>

lemma saveGroups_grows:
  "length (alldata s) \<le> length (alldata (stateOf (saveGroups P es s)))
   \<and> length (earliestTotals s) \<le> length (earliestTotals (stateOf (saveGroups P es s)))"
proof (induction es arbitrary: s)
  case Nil
  then show ?case by (simp add: stateOf_Inr)
next
  case (Cons e es)
  obtain k r where e: "e = (k, r)" by (cases e)
  show ?case
  proof (cases "length (memory s ! r) < 3")
    case True
    then show ?thesis using Cons.IH[of s] e by simp
  next
    case False
    let ?s1 = "stateOf (saveGroup P k r s)"
    have g: "length (alldata s) \<le> length (alldata ?s1)"
        "length (earliestTotals s) \<le> length (earliestTotals ?s1)"
      by (simp_all add: saveGroup_state)
    show ?thesis
    proof (cases "saveGroup P k r s")
      case (Inl a)
      then have "stateOf (saveGroups P (e # es) s) = ?s1"
        using False e by (simp add: stateOf_andThen_Inl)
      then show ?thesis using g by simp
    next
      case (Inr s1)
      then have "stateOf (saveGroups P (e # es) s) = stateOf (saveGroups P es s1)" "?s1 = s1"
        using False e by (simp_all add: stateOf_andThen_Inr stateOf_Inr)
      then show ?thesis using g Cons.IH[of s1] by simp
    qed
  qed
qed

lemma length_js_slice_excess: "3 \<le> length g \<Longrightarrow> length (js_slice g 0 (- 2)) = length g - 2"
  by (simp add: js_slice_excess)

lemma saveGroups_big_grows:
  assumes "\<exists>e\<in>set es. 3 \<le> length (memory s ! snd e)"
  shows "length (alldata s) < length (alldata (stateOf (saveGroups P es s)))
   \<and> length (earliestTotals s) < length (earliestTotals (stateOf (saveGroups P es s)))"
  using assms
proof (induction es arbitrary: s)
  case Nil
  then show ?case by simp
next
  case (Cons e es)
  obtain k r where e: "e = (k, r)" by (cases e)
  show ?case
  proof (cases "length (memory s ! r) < 3")
    case True
    then have "\<exists>e\<in>set es. 3 \<le> length (memory s ! snd e)" using Cons.prems e by auto
    then show ?thesis using Cons.IH[of s] True e by simp
  next
    case False
    let ?s1 = "stateOf (saveGroup P k r s)"
    have g: "length (alldata s) < length (alldata ?s1)"
        "length (earliestTotals s) < length (earliestTotals ?s1)"
    proof -
      have three: "3 \<le> length (memory s ! r)" using False by simp
      then have "memory s ! r \<noteq> []" by auto
      then show "length (alldata s) < length (alldata ?s1)"
        by (simp add: saveGroup_state length_js_sort)
      show "length (earliestTotals s) < length (earliestTotals ?s1)"
        using three by (simp add: saveGroup_state length_js_slice_excess)
    qed
    show ?thesis
    proof (cases "saveGroup P k r s")
      case (Inl a)
      then have "stateOf (saveGroups P (e # es) s) = ?s1"
        using False e by (simp add: stateOf_andThen_Inl)
      then show ?thesis using g by simp
    next
      case (Inr s1)
      then have "stateOf (saveGroups P (e # es) s) = stateOf (saveGroups P es s1)" "?s1 = s1"
        using False e by (simp_all add: stateOf_andThen_Inr stateOf_Inr)
      then show ?thesis using g saveGroups_grows[of s1 P es] by simp
    qed
  qed
qed

lemma saveGroups_ok:
  assumes "\<forall>p c. writeOk P p c"
  shows "\<exists>s'. saveGroups P es s = Inr s'"
proof (induction es arbitrary: s)
  case Nil
  then show ?case by simp
next
  case (Cons e es)
  obtain k r where e: "e = (k, r)" by (cases e)
  show ?case
  proof (cases "length (memory s ! r) < 3")
    case True
    then show ?thesis using Cons.IH[of s] e by simp
  next
    case False
    obtain s1 where "saveGroup P k r s = Inr s1" using assms by (simp add: saveGroup_eq)
    then show ?thesis using False e Cons.IH[of s1] by (simp add: andThen_def)
  qed
qed

lemma reorderAndSave_empty:
  "effects (snd (reorderAndSaveGroupedFiles P [] h)) =
     (if dirExists P \<or> \<not> mkdirOk P then [] else [MkDir outputDir])"
  by (simp add: reorderAndSaveGroupedFiles_def saveAll_def ensureOutputDir_def andThen_def
      sortedGroupEntries_def writeAggregates_def saveEarliestFileRecords_def initialSaveState_def)

text \<open>
  Claim C8, as amended. When the output directory exists or can be created, every
  write succeeds and some group has at least three records, the saving phase completes
  and its last three writes are \<^verbatim>\<open>alldata.csv\<close> and \<^verbatim>\<open>alldata.json\<close>, both with all
  collected records, and \<^verbatim>\<open>earliest_totals.txt\<close> with the sorted excess records. When
  no group has three records, the phase writes no file at all: its only possible effect
  is the creation of the output directory.
\<close>

theorem aggregate_files_written:
  "((dirExists P \<or> mkdirOk P) \<and> (\<forall>p c. writeOk P p c)
      \<and> (\<exists>e\<in>set gm. 3 \<le> length (h ! snd e)) \<longrightarrow>
      (\<exists>s pre. reorderAndSaveGroupedFiles P gm h = (None, s)
         \<and> effects s = pre @
             [WriteFile ''./output/alldata.csv'' (Csv (alldata s)),
              WriteFile ''./output/alldata.json'' (Json (alldata s)),
              WriteFile ''output/earliest_totals.txt''
                (Text (earliestContent P (earliestTotals s)))]))
   \<and> ((\<forall>e\<in>set gm. length (h ! snd e) < 3) \<longrightarrow>
        effects (snd (reorderAndSaveGroupedFiles P gm h)) =
          (if dirExists P \<or> \<not> mkdirOk P then [] else [MkDir outputDir]))"
proof -
  have a: "\<exists>s pre. reorderAndSaveGroupedFiles P gm h = (None, s)
         \<and> effects s = pre @
             [WriteFile ''./output/alldata.csv'' (Csv (alldata s)),
              WriteFile ''./output/alldata.json'' (Json (alldata s)),
              WriteFile ''output/earliest_totals.txt''
                (Text (earliestContent P (earliestTotals s)))]"
    if dir: "dirExists P \<or> mkdirOk P" and ok: "\<forall>p c. writeOk P p c"
      and big: "\<exists>e\<in>set gm. 3 \<le> length (h ! snd e)"
  proof -
    have "\<exists>s0. ensureOutputDir P (initialSaveState h) = Inr s0"
      using dir by (auto simp: ensureOutputDir_def)
    then obtain s0 where s0: "ensureOutputDir P (initialSaveState h) = Inr s0" by blast
    have m0: "memory s0 = h" "alldata s0 = []" "earliestTotals s0 = []"
      using ensureOutputDir_state[of P "initialSaveState h"] s0
      by (simp_all add: stateOf_Inr initialSaveState_def)
    obtain s1 where s1: "saveGroups P (sortedGroupEntries h gm) s0 = Inr s1"
      using saveGroups_ok[OF ok] by blast
    have "\<exists>e\<in>set (sortedGroupEntries h gm). 3 \<le> length (memory s0 ! snd e)"
      using big m0 by (simp add: sortedGroupEntries_def set_js_sort)
    then have ne: "alldata s1 \<noteq> []" "earliestTotals s1 \<noteq> []"
      using saveGroups_big_grows[of "sortedGroupEntries h gm" s0 P] s1 by (auto simp: stateOf_Inr)
    let ?s2 = "s1\<lparr>effects := effects s1 @
             [WriteFile ''./output/alldata.csv'' (Csv (alldata s1)),
              WriteFile ''./output/alldata.json'' (Json (alldata s1))]\<rparr>"
    have s2: "writeAggregates P s1 = Inr ?s2"
      using ne ok
      by (simp add: writeAggregates_def writeToCsv_def writeToJson_def writeFile_def andThen_def)
    let ?listed = "js_sort compareLastModified (earliestTotals s1)"
    let ?s3 = "?s2\<lparr>earliestTotals := ?listed,
            effects := effects ?s2 @ [WriteFile ''output/earliest_totals.txt''
                (Text (earliestContent P ?listed))]\<rparr>"
    have s3: "saveEarliestFileRecords P outputDir ?s2 = Inr ?s3"
      using ne ok
      by (simp add: saveEarliestFileRecords_def writeFile_def Let_def path_join_def outputDir_def)
    have "saveAll P gm h = Inr ?s3"
      using s0 m0 s1 s2 s3 by (simp add: saveAll_def andThen_def)
    then have "reorderAndSaveGroupedFiles P gm h = (None, ?s3)"
      by (simp add: reorderAndSaveGroupedFiles_def)
    moreover have "effects ?s3 = effects s1 @
             [WriteFile ''./output/alldata.csv'' (Csv (alldata ?s3)),
              WriteFile ''./output/alldata.json'' (Json (alldata ?s3)),
              WriteFile ''output/earliest_totals.txt''
                (Text (earliestContent P (earliestTotals ?s3)))]"
      by simp
    ultimately show ?thesis by blast
  qed
  have b: "effects (snd (reorderAndSaveGroupedFiles P gm h)) =
          (if dirExists P \<or> \<not> mkdirOk P then [] else [MkDir outputDir])"
    if "\<forall>e\<in>set gm. length (h ! snd e) < 3"
  proof -
    have "filter (\<lambda>e. 3 \<le> length (h ! snd e)) gm = []"
      using that by (auto simp: filter_empty_conv)
    then have "reorderAndSaveGroupedFiles P gm h = reorderAndSaveGroupedFiles P [] h"
      using reorderAndSave_filter[of P gm h] by simp
    then show ?thesis by (simp add: reorderAndSave_empty)
  qed
  show ?thesis using a b by blast
qed

text \<open>Claim C8, witness of the amended statement: a listing with a group of three, and
  a listing without one.\<close>

theorem aggregate_files_written_witness:
  "(dirExists samplePlatform \<or> mkdirOk samplePlatform)
   \<and> (\<forall>p c. writeOk samplePlatform p c)
   \<and> (\<exists>s pre. reorderAndSaveGroupedFiles samplePlatform
          (groupedFiles (groupBlobs mixedListing)) (store (groupBlobs mixedListing)) = (None, s)
         \<and> effects s = pre @
             [WriteFile ''./output/alldata.csv'' (Csv (alldata s)),
              WriteFile ''./output/alldata.json'' (Json (alldata s)),
              WriteFile ''output/earliest_totals.txt''
                (Text (earliestContent samplePlatform (earliestTotals s)))])
   \<and> effects (snd (reorderAndSaveGroupedFiles samplePlatform
          (groupedFiles (groupBlobs smallListing)) (store (groupBlobs smallListing))))
       = [MkDir outputDir]"
proof -
  have h1: "dirExists samplePlatform \<or> mkdirOk samplePlatform"
    by (simp add: samplePlatform_def)
  have h2: "\<forall>p c. writeOk samplePlatform p c"
    by (simp add: samplePlatform_def)
  have gm: "groupedFiles (groupBlobs mixedListing) = [(''main'', 0), ('''', 1)]"
    by code_simp
  have l0: "length (store (groupBlobs mixedListing) ! 0) = 3"
    by code_simp
  have h3: "\<exists>e\<in>set (groupedFiles (groupBlobs mixedListing)).
       3 \<le> length (store (groupBlobs mixedListing) ! snd e)"
    using l0 by (simp add: gm)
  have gs: "groupedFiles (groupBlobs smallListing) = [(''app'', 0)]"
    by code_simp
  have l1: "length (store (groupBlobs smallListing) ! 0) = 2"
    by code_simp
  have h4: "\<forall>e\<in>set (groupedFiles (groupBlobs smallListing)).
       length (store (groupBlobs smallListing) ! snd e) < 3"
    using l1 by (simp add: gs)
  have nd: "\<not> (dirExists samplePlatform \<or> \<not> mkdirOk samplePlatform)"
    by (simp add: samplePlatform_def)
  have a: "\<exists>s pre. reorderAndSaveGroupedFiles samplePlatform
          (groupedFiles (groupBlobs mixedListing)) (store (groupBlobs mixedListing)) = (None, s)
         \<and> effects s = pre @
             [WriteFile ''./output/alldata.csv'' (Csv (alldata s)),
              WriteFile ''./output/alldata.json'' (Json (alldata s)),
              WriteFile ''output/earliest_totals.txt''
                (Text (earliestContent samplePlatform (earliestTotals s)))]"
    using h1 h2 h3
      aggregate_files_written[of samplePlatform "groupedFiles (groupBlobs mixedListing)"
        "store (groupBlobs mixedListing)"]
    by blast
  have "effects (snd (reorderAndSaveGroupedFiles samplePlatform
          (groupedFiles (groupBlobs smallListing)) (store (groupBlobs smallListing))))
       = (if dirExists samplePlatform \<or> \<not> mkdirOk samplePlatform then []
          else [MkDir outputDir])"
    using h4
      aggregate_files_written[of samplePlatform "groupedFiles (groupBlobs smallListing)"
        "store (groupBlobs smallListing)"]
    by blast
  then have b: "effects (snd (reorderAndSaveGroupedFiles samplePlatform
          (groupedFiles (groupBlobs smallListing)) (store (groupBlobs smallListing))))
       = [MkDir outputDir]"
    using nd by simp
  show ?thesis using h1 h2 a b by blast
qed


text \<open>
  Claim C8 as stated fails: for a listing of two files in one group, the run creates
  the output directory and writes none of the three files.
\<close>

theorem no_files_for_small_listing:
  "effects (snd (reorderAndSaveGroupedFiles samplePlatform
      (groupedFiles (groupBlobs smallListing)) (store (groupBlobs smallListing))))
   = [MkDir ''./output'']"
  by code_simp


section \<open>Properties of the store after the saving phase\<close>

lemma andThen_Inr: "andThen m f = Inr s' \<Longrightarrow> \<exists>s. m = Inr s \<and> f s = Inr s'"
  by (cases m) (simp_all add: andThen_def)

lemma saveGroup_Inr_memory:
  "saveGroup P k r s = Inr s1 \<Longrightarrow>
   memory s1 = (memory s)[r := js_sort (compareNames P) (memory s ! r)]"
  by (auto simp: saveGroup_eq afterSort_def split: if_splits)

lemma saveGroups_memory:
  assumes "distinct (map snd es)" "saveGroups P es s = Inr s'"
  shows "memory s' ! i =
     (if i \<in> snd ` set es \<and> i < length (memory s) \<and> 3 \<le> length (memory s ! i)
      then js_sort (compareNames P) (memory s ! i) else memory s ! i)"
  using assms
proof (induction es arbitrary: s)
  case Nil
  then show ?case by simp
next
  case (Cons e es)
  obtain k r where e: "e = (k, r)" by (cases e)
  have d: "distinct (map snd es)" and nr: "r \<notin> snd ` set es" using Cons.prems(1) e by auto
  show ?case
  proof (cases "length (memory s ! r) < 3")
    case True
    then have "saveGroups P es s = Inr s'" using Cons.prems(2) e by simp
    then have ih: "memory s' ! i =
       (if i \<in> snd ` set es \<and> i < length (memory s) \<and> 3 \<le> length (memory s ! i)
        then js_sort (compareNames P) (memory s ! i) else memory s ! i)"
      using Cons.IH[OF d] by simp
    show ?thesis
    proof (cases "i = r")
      case True
      then show ?thesis using ih nr \<open>length (memory s ! r) < 3\<close> e by simp
    next
      case False
      then show ?thesis using ih e by simp
    qed
  next
    case False
    then have "andThen (saveGroup P k r s) (saveGroups P es) = Inr s'"
      using Cons.prems(2) e by simp
    then obtain s1 where s1: "saveGroup P k r s = Inr s1" "saveGroups P es s1 = Inr s'"
      using andThen_Inr by blast
    have m1: "memory s1 = (memory s)[r := js_sort (compareNames P) (memory s ! r)]"
      using saveGroup_Inr_memory[OF s1(1)] .
    have ih: "memory s' ! i =
       (if i \<in> snd ` set es \<and> i < length (memory s1) \<and> 3 \<le> length (memory s1 ! i)
        then js_sort (compareNames P) (memory s1 ! i) else memory s1 ! i)"
      using Cons.IH[OF d s1(2)] .
    show ?thesis
    proof (cases "i = r")
      case True
      have "memory s' ! r = memory s1 ! r" using ih nr True by simp
      also have "\<dots> = (if r < length (memory s) then js_sort (compareNames P) (memory s ! r)
                        else memory s ! r)"
        by (simp add: m1 list_update_beyond)
      finally show ?thesis using True False e by simp
    next
      case ne: False
      then have "memory s1 ! i = memory s ! i" by (simp add: m1)
      then show ?thesis using ih ne e by (simp add: m1)
    qed
  qed
qed

lemma writeAggregates_Inr_memory: "writeAggregates P s = Inr s' \<Longrightarrow> memory s' = memory s"
  using writeAggregates_state(3)[of P s] by (simp add: stateOf_Inr)

lemma saveEarliest_Inr_memory:
  "saveEarliestFileRecords P d s = Inr s' \<Longrightarrow> memory s' = memory s"
  using saveEarliest_state(3)[of P d s] by (simp add: stateOf_Inr)

lemma distinct_sortedGroupEntries:
  "distinct (map snd (sortedGroupEntries h gm)) = distinct (map snd gm)"
proof -
  have "mset (map snd (sortedGroupEntries h gm)) = mset (map snd gm)"
    by (simp add: sortedGroupEntries_def mset_js_sort)
  then show ?thesis by (rule mset_eq_imp_distinct_iff)
qed

lemma reorderAndSave_memory:
  assumes "distinct (map snd gm)" "reorderAndSaveGroupedFiles P gm h = (None, s')"
  shows "memory s' ! i =
     (if i \<in> snd ` set gm \<and> i < length h \<and> 3 \<le> length (h ! i)
      then js_sort (compareNames P) (h ! i) else h ! i)"
proof -
  have "saveAll P gm h = Inr s'"
    using assms(2) by (auto simp: reorderAndSaveGroupedFiles_def split: sum.splits prod.splits)
  then obtain s0 where s0: "ensureOutputDir P (initialSaveState h) = Inr s0"
    and r1: "andThen (saveGroups P (sortedGroupEntries (memory s0) gm) s0)
          (\<lambda>s. andThen (writeAggregates P s) (\<lambda>s. saveEarliestFileRecords P outputDir s)) = Inr s'"
    unfolding saveAll_def using andThen_Inr by blast
  have m0: "memory s0 = h"
    using ensureOutputDir_memory[OF s0] by (simp add: initialSaveState_def)
  obtain s1 where s1: "saveGroups P (sortedGroupEntries h gm) s0 = Inr s1"
    and r2: "andThen (writeAggregates P s1) (\<lambda>s. saveEarliestFileRecords P outputDir s) = Inr s'"
    using andThen_Inr[OF r1] m0 by auto
  obtain s2 where s2: "writeAggregates P s1 = Inr s2"
    and s3: "saveEarliestFileRecords P outputDir s2 = Inr s'"
    using andThen_Inr[OF r2] by auto
  have "memory s' = memory s1"
    using writeAggregates_Inr_memory[OF s2] saveEarliest_Inr_memory[OF s3] by simp
  moreover have "memory s1 ! i =
     (if i \<in> snd ` set (sortedGroupEntries h gm) \<and> i < length (memory s0) \<and> 3 \<le> length (memory s0 ! i)
      then js_sort (compareNames P) (memory s0 ! i) else memory s0 ! i)"
    using saveGroups_memory[OF _ s1] assms(1) by (simp add: distinct_sortedGroupEntries)
  ultimately show ?thesis using m0 by (simp add: sortedGroupEntries_def set_js_sort)
qed

lemma run_memory_mset:
  "mset (memory (snd (reorderAndSaveGroupedFiles P gm h)) ! i) = mset (h ! i)"
proof -
  obtain s0 where s0: "memory s0 = h"
    and d: "stateOf (saveAll P gm h) = s0
        \<or> (let s1 = stateOf (saveGroups P (sortedGroupEntries h gm) s0)
           in alldata (stateOf (saveAll P gm h)) = alldata s1
            \<and> set (earliestTotals (stateOf (saveAll P gm h))) = set (earliestTotals s1)
            \<and> memory (stateOf (saveAll P gm h)) = memory s1)"
    using saveAll_after_loop[of h P gm] by blast
  show ?thesis
    using d s0 saveGroups_memory_mset[of P "sortedGroupEntries h gm" s0 i]
    by (auto simp: snd_reorderAndSave Let_def)
qed

lemma saveGroup_Inr_totals:
  "saveGroup P k r s = Inr s1 \<Longrightarrow>
   earliestTotals s1 = earliestTotals s @ js_slice (memory s ! r) 0 (- 2)"
  using saveGroup_state(2)[of P k r s] by (simp add: stateOf_Inr)

text \<open>When no two entries share an array, each group is still in its original order when
  the loop reaches it, and the loop collects the excess slices of the original
  arrays.\<close>

lemma saveGroups_totals:
  assumes "distinct (map snd es)" "saveGroups P es s = Inr s'"
  shows "earliestTotals s' = earliestTotals s @
     concat (map (\<lambda>e. js_slice (memory s ! snd e) 0 (- 2))
               (filter (\<lambda>e. 3 \<le> length (memory s ! snd e)) es))"
  using assms
proof (induction es arbitrary: s)
  case Nil
  then show ?case by simp
next
  case (Cons e es)
  obtain k r where e: "e = (k, r)" by (cases e)
  have d: "distinct (map snd es)" and nr: "r \<notin> snd ` set es" using Cons.prems(1) e by auto
  show ?case
  proof (cases "length (memory s ! r) < 3")
    case True
    then have "saveGroups P es s = Inr s'" using Cons.prems(2) e by simp
    then show ?thesis using Cons.IH[OF d] True e by simp
  next
    case False
    then have "andThen (saveGroup P k r s) (saveGroups P es) = Inr s'"
      using Cons.prems(2) e by simp
    then obtain s1 where s1: "saveGroup P k r s = Inr s1" "saveGroups P es s1 = Inr s'"
      using andThen_Inr by blast
    have m1: "memory s1 = (memory s)[r := js_sort (compareNames P) (memory s ! r)]"
      using saveGroup_Inr_memory[OF s1(1)] .
    have same: "memory s1 ! snd x = memory s ! snd x" if "x \<in> set es" for x
    proof -
      have "snd x \<noteq> r" using nr that by force
      then show ?thesis by (simp add: m1)
    qed
    have f: "filter (\<lambda>e. 3 \<le> length (memory s1 ! snd e)) es
           = filter (\<lambda>e. 3 \<le> length (memory s ! snd e)) es"
      by (rule filter_cong) (simp_all add: same)
    have g: "map (\<lambda>e. js_slice (memory s1 ! snd e) 0 (- 2))
              (filter (\<lambda>e. 3 \<le> length (memory s ! snd e)) es)
        = map (\<lambda>e. js_slice (memory s ! snd e) 0 (- 2))
              (filter (\<lambda>e. 3 \<le> length (memory s ! snd e)) es)"
      by (rule map_cong) (simp_all add: same)
    have "earliestTotals s' = earliestTotals s1 @
       concat (map (\<lambda>e. js_slice (memory s1 ! snd e) 0 (- 2))
               (filter (\<lambda>e. 3 \<le> length (memory s1 ! snd e)) es))"
      using Cons.IH[OF d s1(2)] .
    then have "earliestTotals s' = earliestTotals s1 @
       concat (map (\<lambda>e. js_slice (memory s ! snd e) 0 (- 2))
               (filter (\<lambda>e. 3 \<le> length (memory s ! snd e)) es))"
      unfolding f g .
    then show ?thesis using saveGroup_Inr_totals[OF s1(1)] False e by simp
  qed
qed

lemma writeAggregates_Inr_totals:
  "writeAggregates P s = Inr s' \<Longrightarrow> earliestTotals s' = earliestTotals s"
  using writeAggregates_state(2)[of P s] by (simp add: stateOf_Inr)

lemma saveEarliest_Inr_totals:
  "saveEarliestFileRecords P d s = Inr s' \<Longrightarrow>
   earliestTotals s' = js_sort compareLastModified (earliestTotals s)"
  by (cases "earliestTotals s = []")
     (auto simp: saveEarliestFileRecords_def writeFile_def Let_def split: if_splits)

lemma reorderAndSave_totals:
  assumes "distinct (map snd gm)" "reorderAndSaveGroupedFiles P gm h = (None, s')"
  shows "earliestTotals s' = js_sort compareLastModified
     (concat (map (\<lambda>e. js_slice (h ! snd e) 0 (- 2))
                (filter (\<lambda>e. 3 \<le> length (h ! snd e)) (sortedGroupEntries h gm))))"
proof -
  have "saveAll P gm h = Inr s'"
    using assms(2) by (auto simp: reorderAndSaveGroupedFiles_def split: sum.splits prod.splits)
  then obtain s0 where s0: "ensureOutputDir P (initialSaveState h) = Inr s0"
    and r1: "andThen (saveGroups P (sortedGroupEntries (memory s0) gm) s0)
          (\<lambda>s. andThen (writeAggregates P s) (\<lambda>s. saveEarliestFileRecords P outputDir s)) = Inr s'"
    unfolding saveAll_def using andThen_Inr by blast
  have m0: "memory s0 = h" "earliestTotals s0 = []"
    using ensureOutputDir_state[of P "initialSaveState h"] s0
    by (simp_all add: stateOf_Inr initialSaveState_def)
  obtain s1 where s1: "saveGroups P (sortedGroupEntries h gm) s0 = Inr s1"
    and r2: "andThen (writeAggregates P s1) (\<lambda>s. saveEarliestFileRecords P outputDir s) = Inr s'"
    using andThen_Inr[OF r1] m0 by auto
  obtain s2 where s2: "writeAggregates P s1 = Inr s2"
    and s3: "saveEarliestFileRecords P outputDir s2 = Inr s'"
    using andThen_Inr[OF r2] by auto
  have "earliestTotals s1 =
     concat (map (\<lambda>e. js_slice (h ! snd e) 0 (- 2))
                (filter (\<lambda>e. 3 \<le> length (h ! snd e)) (sortedGroupEntries h gm)))"
    using saveGroups_totals[OF _ s1] assms(1) m0 by (simp add: distinct_sortedGroupEntries)
  then show ?thesis
    using writeAggregates_Inr_totals[OF s2] saveEarliest_Inr_totals[OF s3] by simp
qed

lemma distinct_refs_groupBlobs: "distinct (map snd (groupedFiles (groupBlobs blobs)))"
  using group_inv_groupBlobs[of blobs] by (simp add: group_inv_def)

text \<open>
  Claim C4, as amended. The saving phase sorts each group's array in place, so every
  array of the store is, after the phase, a permutation of what it was; and after
  grouping a listing, when the phase completes without a caught error, the sequence
  the map holds for a key is its original listing order sorted by name if the group
  has at least three records, and unchanged otherwise, while the excess records are
  the slices \<^verbatim>\<open>slice(0, -2)\<close> of the groups in their original listing order, taken in
  the order of the sorted groups and then sorted for the report.
\<close>

theorem groups_sorted_in_place:
  "mset (memory (snd (reorderAndSaveGroupedFiles P gm h)) ! i) = mset (h ! i)
   \<and> (groupOf (groupBlobs blobs) k = Some g
        \<and> reorderAndSaveGroupedFiles P (groupedFiles (groupBlobs blobs)) (store (groupBlobs blobs))
            = (None, s') \<longrightarrow>
       groupOf ((groupBlobs blobs)\<lparr>store := memory s'\<rparr>) k =
         Some (if 3 \<le> length g then js_sort (compareNames P) g else g))
   \<and> (reorderAndSaveGroupedFiles P (groupedFiles (groupBlobs blobs)) (store (groupBlobs blobs))
          = (None, s') \<longrightarrow>
       earliestTotals s' = js_sort compareLastModified
         (concat (map (\<lambda>e. js_slice (store (groupBlobs blobs) ! snd e) 0 (- 2))
            (filter (\<lambda>e. 3 \<le> length (store (groupBlobs blobs) ! snd e))
               (sortedGroupEntries (store (groupBlobs blobs)) (groupedFiles (groupBlobs blobs)))))))"
proof -
  let ?st = "groupBlobs blobs"
  have b: "groupOf (?st\<lparr>store := memory s'\<rparr>) k =
         Some (if 3 \<le> length g then js_sort (compareNames P) g else g)"
    if g: "groupOf ?st k = Some g"
      and run: "reorderAndSaveGroupedFiles P (groupedFiles ?st) (store ?st) = (None, s')"
  proof -
    obtain r where r: "map_of (groupedFiles ?st) k = Some r" "g = store ?st ! r"
      using g by (auto simp: groupOf_def map_get_def)
    have A1: "map snd (groupedFiles ?st) = [0..<length (store ?st)]"
      using group_inv_groupBlobs[of blobs] by (simp add: group_inv_def)
    then have dist: "distinct (map snd (groupedFiles ?st))" by simp
    have rb: "r < length (store ?st)" using refs_bound[OF A1 r(1)] .
    have "(k, r) \<in> set (groupedFiles ?st)" using r(1) by (rule map_of_SomeD)
    then have rin: "r \<in> snd ` set (groupedFiles ?st)" by force
    have "memory s' ! r = (if 3 \<le> length g then js_sort (compareNames P) g else g)"
      using reorderAndSave_memory[OF dist run, of r] rb rin r(2) by simp
    then show ?thesis using r(1) by (simp add: groupOf_def map_get_def)
  qed
  have c: "earliestTotals s' = js_sort compareLastModified
         (concat (map (\<lambda>e. js_slice (store ?st ! snd e) 0 (- 2))
            (filter (\<lambda>e. 3 \<le> length (store ?st ! snd e))
               (sortedGroupEntries (store ?st) (groupedFiles ?st)))))"
    if "reorderAndSaveGroupedFiles P (groupedFiles ?st) (store ?st) = (None, s')"
    using reorderAndSave_totals[OF distinct_refs_groupBlobs that] .
  show ?thesis using b c run_memory_mset by blast
qed

text \<open>Claim C4, witness of the amended statement: the group \<open>main\<close> of three files,
  held sorted by name after the phase, with \<open>main.b.js\<close>, first in listing order, as
  its excess record.\<close>

theorem groups_sorted_in_place_witness:
  "groupOf (groupBlobs unsortedListing) ''main''
     = Some [mkFile ''main.b.js'' (Some 1), mkFile ''main.a.js'' (Some 2),
             mkFile ''main.c.js'' (Some 3)]
   \<and> fst (reorderAndSaveGroupedFiles samplePlatform (groupedFiles (groupBlobs unsortedListing))
          (store (groupBlobs unsortedListing))) = None
   \<and> groupOf ((groupBlobs unsortedListing)\<lparr>store := memory (snd (reorderAndSaveGroupedFiles
          samplePlatform (groupedFiles (groupBlobs unsortedListing))
          (store (groupBlobs unsortedListing))))\<rparr>) ''main''
     = Some (js_sort (compareNames samplePlatform)
          [mkFile ''main.b.js'' (Some 1), mkFile ''main.a.js'' (Some 2),
           mkFile ''main.c.js'' (Some 3)])
   \<and> earliestTotals (snd (reorderAndSaveGroupedFiles samplePlatform
          (groupedFiles (groupBlobs unsortedListing)) (store (groupBlobs unsortedListing))))
     = [mkFile ''main.b.js'' (Some 1)]"
proof -
  let ?gm = "groupedFiles (groupBlobs unsortedListing)"
  let ?h = "store (groupBlobs unsortedListing)"
  let ?run = "reorderAndSaveGroupedFiles samplePlatform ?gm ?h"
  have g: "groupOf (groupBlobs unsortedListing) ''main''
     = Some [mkFile ''main.b.js'' (Some 1), mkFile ''main.a.js'' (Some 2),
             mkFile ''main.c.js'' (Some 3)]"
    by code_simp
  have f: "fst ?run = None" by code_simp
  then have r: "?run = (None, snd ?run)" by (metis prod.collapse)
  have v: "js_sort compareLastModified
         (concat (map (\<lambda>e. js_slice (?h ! snd e) 0 (- 2))
            (filter (\<lambda>e. 3 \<le> length (?h ! snd e)) (sortedGroupEntries ?h ?gm))))
       = [mkFile ''main.b.js'' (Some 1)]"
    by code_simp
  let ?g = "[mkFile ''main.b.js'' (Some 1), mkFile ''main.a.js'' (Some 2),
             mkFile ''main.c.js'' (Some 3)]"
  have "groupOf (groupBlobs unsortedListing) ''main'' = Some ?g \<and> ?run = (None, snd ?run) \<longrightarrow>
       groupOf ((groupBlobs unsortedListing)\<lparr>store := memory (snd ?run)\<rparr>) ''main'' =
         Some (if 3 \<le> length ?g then js_sort (compareNames samplePlatform) ?g else ?g)"
    by (rule groups_sorted_in_place[THEN conjunct2, THEN conjunct1])
  then have t1: "groupOf ((groupBlobs unsortedListing)\<lparr>store := memory (snd ?run)\<rparr>) ''main''
     = Some (js_sort (compareNames samplePlatform) ?g)"
    using g r by simp
  have "?run = (None, snd ?run) \<longrightarrow>
       earliestTotals (snd ?run) = js_sort compareLastModified
         (concat (map (\<lambda>e. js_slice (?h ! snd e) 0 (- 2))
            (filter (\<lambda>e. 3 \<le> length (?h ! snd e)) (sortedGroupEntries ?h ?gm))))"
    by (rule groups_sorted_in_place[THEN conjunct2, THEN conjunct2])
  then have t2: "earliestTotals (snd ?run) = [mkFile ''main.b.js'' (Some 1)]"
    using r v by simp
  have t: "groupOf ((groupBlobs unsortedListing)\<lparr>store := memory (snd ?run)\<rparr>) ''main''
     = Some (js_sort (compareNames samplePlatform) ?g)
     \<and> earliestTotals (snd ?run) = [mkFile ''main.b.js'' (Some 1)]"
    using t1 t2 by simp
  show ?thesis using g f t by blast
qed

text \<open>
  Claim C4 as stated fails: the group \<open>main\<close> listed as \<open>main.b.js, main.a.js,
  main.c.js\<close> is held by the map as \<open>main.a.js, main.b.js, main.c.js\<close> after the phase.
\<close>

theorem group_order_mutated:
  "groupOf (groupBlobs unsortedListing) ''main''
     = Some [mkFile ''main.b.js'' (Some 1), mkFile ''main.a.js'' (Some 2),
             mkFile ''main.c.js'' (Some 3)]
   \<and> groupOf ((groupBlobs unsortedListing)\<lparr>store := memory (snd (reorderAndSaveGroupedFiles
          samplePlatform (groupedFiles (groupBlobs unsortedListing))
          (store (groupBlobs unsortedListing))))\<rparr>) ''main''
     = Some [mkFile ''main.a.js'' (Some 2), mkFile ''main.b.js'' (Some 1),
             mkFile ''main.c.js'' (Some 3)]
   \<and> groupOf ((groupBlobs unsortedListing)\<lparr>store := memory (snd (reorderAndSaveGroupedFiles
          samplePlatform (groupedFiles (groupBlobs unsortedListing))
          (store (groupBlobs unsortedListing))))\<rparr>) ''main''
     \<noteq> groupOf (groupBlobs unsortedListing) ''main''"
  by code_simp

section \<open>The retention split in the saving phase\<close>

text \<open>
  Claim C2. For a group of at least three records, \<^verbatim>\<open>slice(0, -2)\<close> is the first
  \<open>n - 2\<close> records and the last two records are the rest; the lengths are \<open>n - 2\<close> and
  2 and the two parts concatenated give the group back. The loop body, on a group of
  \<open>n \<ge> 3\<close> records, adds exactly the first \<open>n - 2\<close> records of the array as it stands to
  the excess records; and a completed run on a map whose entries do not share arrays
  ends with, as excess records, the first \<open>n - 2\<close> records of each qualifying group in
  its original order, group after group in sorted group order, sorted for the report.
  For the group \<open>b.js, a.js, c.js\<close> in listing order, the excess is \<open>b.js\<close> and the
  kept records are \<open>a.js, c.js\<close>; the loop body adds exactly \<open>b.js\<close> to the excess
  records whatever the platform's name comparison is, while the display order on the
  sample platform is \<open>a.js, b.js, c.js\<close>.
\<close>

theorem retention_partition:
  "(3 \<le> length g \<longrightarrow>
      js_slice g 0 (- 2) = take (length g - 2) g
      \<and> keptRecords g = drop (length g - 2) g
      \<and> length (js_slice g 0 (- 2)) = length g - 2
      \<and> length (keptRecords g) = 2
      \<and> js_slice g 0 (- 2) @ keptRecords g = g)
   \<and> (3 \<le> length (memory s ! r) \<longrightarrow>
        earliestTotals (stateOf (saveGroup P k r s))
          = earliestTotals s @ take (length (memory s ! r) - 2) (memory s ! r))
   \<and> (distinct (map snd gm) \<and> reorderAndSaveGroupedFiles P gm h = (None, s') \<longrightarrow>
        earliestTotals s' = js_sort compareLastModified
          (concat (map (\<lambda>e. take (length (h ! snd e) - 2) (h ! snd e))
                     (filter (\<lambda>e. 3 \<le> length (h ! snd e)) (sortedGroupEntries h gm)))))
   \<and> js_slice [mkFile ''b.js'' tb, mkFile ''a.js'' ta, mkFile ''c.js'' tc] 0 (- 2)
       = [mkFile ''b.js'' tb]
   \<and> keptRecords [mkFile ''b.js'' tb, mkFile ''a.js'' ta, mkFile ''c.js'' tc]
       = [mkFile ''a.js'' ta, mkFile ''c.js'' tc]
   \<and> (memory s ! r = [mkFile ''b.js'' tb, mkFile ''a.js'' ta, mkFile ''c.js'' tc] \<longrightarrow>
        earliestTotals (stateOf (saveGroup P k r s)) = earliestTotals s @ [mkFile ''b.js'' tb])
   \<and> js_sort (compareNames samplePlatform)
        [mkFile ''b.js'' tb, mkFile ''a.js'' ta, mkFile ''c.js'' tc]
       = [mkFile ''a.js'' ta, mkFile ''b.js'' tb, mkFile ''c.js'' tc]"
proof -
  have a: "js_slice g 0 (- 2) = take (length g - 2) g" if "3 \<le> length g"
    using that by (rule js_slice_excess)
  have b: "keptRecords g = drop (length g - 2) g" if "3 \<le> length g"
    using that by (rule keptRecords_drop)
  have c: "js_slice [mkFile ''b.js'' tb, mkFile ''a.js'' ta, mkFile ''c.js'' tc] 0 (- 2)
       = [mkFile ''b.js'' tb]"
    by (simp add: js_slice_def)
  have d: "keptRecords [mkFile ''b.js'' tb, mkFile ''a.js'' ta, mkFile ''c.js'' tc]
       = [mkFile ''a.js'' ta, mkFile ''c.js'' tc]"
    by (simp add: keptRecords_def js_slice_def)
  have e: "earliestTotals (stateOf (saveGroup P k r s)) = earliestTotals s @ [mkFile ''b.js'' tb]"
    if "memory s ! r = [mkFile ''b.js'' tb, mkFile ''a.js'' ta, mkFile ''c.js'' tc]"
    using that c by (simp add: saveGroup_totals)
  have f: "js_sort (compareNames samplePlatform)
        [mkFile ''b.js'' tb, mkFile ''a.js'' ta, mkFile ''c.js'' tc]
       = [mkFile ''a.js'' ta, mkFile ''b.js'' tb, mkFile ''c.js'' tc]"
    by (simp add: compareNames_def samplePlatform_def mkFile_def)
  have g: "earliestTotals (stateOf (saveGroup P k r s))
          = earliestTotals s @ take (length (memory s ! r) - 2) (memory s ! r)"
    if "3 \<le> length (memory s ! r)"
    using that by (simp add: saveGroup_state js_slice_excess)
  have h: "earliestTotals s' = js_sort compareLastModified
          (concat (map (\<lambda>e. take (length (h ! snd e) - 2) (h ! snd e))
                     (filter (\<lambda>e. 3 \<le> length (h ! snd e)) (sortedGroupEntries h gm))))"
    if dist: "distinct (map snd gm)" and run: "reorderAndSaveGroupedFiles P gm h = (None, s')"
  proof -
    have m: "map (\<lambda>e. js_slice (h ! snd e) 0 (- 2))
              (filter (\<lambda>e. 3 \<le> length (h ! snd e)) (sortedGroupEntries h gm))
        = map (\<lambda>e. take (length (h ! snd e) - 2) (h ! snd e))
              (filter (\<lambda>e. 3 \<le> length (h ! snd e)) (sortedGroupEntries h gm))"
      by (rule map_cong) (simp_all add: js_slice_excess)
    show ?thesis using reorderAndSave_totals[OF dist run] unfolding m .
  qed
  have first: "3 \<le> length g \<longrightarrow>
      js_slice g 0 (- 2) = take (length g - 2) g
      \<and> keptRecords g = drop (length g - 2) g
      \<and> length (js_slice g 0 (- 2)) = length g - 2
      \<and> length (keptRecords g) = 2
      \<and> js_slice g 0 (- 2) @ keptRecords g = g"
    using a b by simp
  show ?thesis using first c d e f g h by blast
qed

text \<open>Claim C2, witness: a group of four; the group \<open>b.js, a.js, c.js\<close> in a store; and
  a group of five listed in descending order, whose excess is its first three records
  in listing order, not the first three by name.\<close>

theorem retention_partition_witness:
  "3 \<le> length [1, 2, 3, 4 :: nat]
   \<and> js_slice [1, 2, 3, 4 :: nat] 0 (- 2) = [1, 2]
   \<and> keptRecords [1, 2, 3, 4 :: nat] = [3, 4]
   \<and> memory (initialSaveState [[mkFile ''b.js'' (Some 1), mkFile ''a.js'' (Some 2), mkFile ''c.js'' (Some 3)]]) ! 0
       = [mkFile ''b.js'' (Some 1), mkFile ''a.js'' (Some 2), mkFile ''c.js'' (Some 3)]
   \<and> earliestTotals (stateOf (saveGroup samplePlatform ''x'' 0
        (initialSaveState [[mkFile ''b.js'' (Some 1), mkFile ''a.js'' (Some 2), mkFile ''c.js'' (Some 3)]])))
       = [mkFile ''b.js'' (Some 1)]
   \<and> 3 \<le> length (memory (initialSaveState (store (groupBlobs fiveListing))) ! 0)
   \<and> earliestTotals (stateOf (saveGroup samplePlatform ''m'' 0
        (initialSaveState (store (groupBlobs fiveListing)))))
       = [mkFile ''m.e.js'' (Some 5), mkFile ''m.d.js'' (Some 4), mkFile ''m.c.js'' (Some 3)]
   \<and> distinct (map snd (groupedFiles (groupBlobs fiveListing)))
   \<and> fst (reorderAndSaveGroupedFiles samplePlatform (groupedFiles (groupBlobs fiveListing))
          (store (groupBlobs fiveListing))) = None
   \<and> earliestTotals (snd (reorderAndSaveGroupedFiles samplePlatform
          (groupedFiles (groupBlobs fiveListing)) (store (groupBlobs fiveListing))))
       = [mkFile ''m.c.js'' (Some 3), mkFile ''m.d.js'' (Some 4), mkFile ''m.e.js'' (Some 5)]"
proof -
  let ?bac = "[mkFile ''b.js'' (Some 1), mkFile ''a.js'' (Some 2), mkFile ''c.js'' (Some 3)]"
  let ?gm = "groupedFiles (groupBlobs fiveListing)"
  let ?h = "store (groupBlobs fiveListing)"
  let ?run = "reorderAndSaveGroupedFiles samplePlatform ?gm ?h"
  have p1: "3 \<le> length [1, 2, 3, 4 :: nat]
   \<and> js_slice [1, 2, 3, 4 :: nat] 0 (- 2) = [1, 2]
   \<and> keptRecords [1, 2, 3, 4 :: nat] = [3, 4]
   \<and> memory (initialSaveState [?bac]) ! 0 = ?bac
   \<and> earliestTotals (stateOf (saveGroup samplePlatform ''x'' 0 (initialSaveState [?bac])))
       = [mkFile ''b.js'' (Some 1)]"
    using retention_partition[of "[1, 2, 3, 4 :: nat]" "initialSaveState [?bac]" 0
        samplePlatform "''x''" _ _ _ "Some 1" "Some 2" "Some 3"]
    by (simp add: initialSaveState_def)
  have st: "?h = [[mkFile ''m.e.js'' (Some 5), mkFile ''m.d.js'' (Some 4),
        mkFile ''m.c.js'' (Some 3), mkFile ''m.b.js'' (Some 2), mkFile ''m.a.js'' (Some 1)]]"
    by code_simp
  have gm: "?gm = [(''m'', 0)]" by code_simp
  have l: "3 \<le> length (memory (initialSaveState ?h) ! 0)"
    by (simp add: st initialSaveState_def)
  have "3 \<le> length (memory (initialSaveState ?h) ! 0) \<longrightarrow>
        earliestTotals (stateOf (saveGroup samplePlatform ''m'' 0 (initialSaveState ?h)))
          = earliestTotals (initialSaveState ?h)
              @ take (length (memory (initialSaveState ?h) ! 0) - 2)
                  (memory (initialSaveState ?h) ! 0)"
    by (rule retention_partition[THEN conjunct2, THEN conjunct1])
  then have p2: "earliestTotals (stateOf (saveGroup samplePlatform ''m'' 0 (initialSaveState ?h)))
       = [mkFile ''m.e.js'' (Some 5), mkFile ''m.d.js'' (Some 4), mkFile ''m.c.js'' (Some 3)]"
    using l by (simp add: st initialSaveState_def)
  have dist: "distinct (map snd ?gm)" by (simp add: gm)
  have f: "fst ?run = None" by code_simp
  then have r: "?run = (None, snd ?run)" by (metis prod.collapse)
  have v: "js_sort compareLastModified
          (concat (map (\<lambda>e. take (length (?h ! snd e) - 2) (?h ! snd e))
                     (filter (\<lambda>e. 3 \<le> length (?h ! snd e)) (sortedGroupEntries ?h ?gm))))
        = [mkFile ''m.c.js'' (Some 3), mkFile ''m.d.js'' (Some 4), mkFile ''m.e.js'' (Some 5)]"
    by code_simp
  have "distinct (map snd ?gm) \<and> ?run = (None, snd ?run) \<longrightarrow>
        earliestTotals (snd ?run) = js_sort compareLastModified
          (concat (map (\<lambda>e. take (length (?h ! snd e) - 2) (?h ! snd e))
                     (filter (\<lambda>e. 3 \<le> length (?h ! snd e)) (sortedGroupEntries ?h ?gm))))"
    by (rule retention_partition[THEN conjunct2, THEN conjunct2, THEN conjunct1])
  then have p3: "earliestTotals (snd ?run)
       = [mkFile ''m.c.js'' (Some 3), mkFile ''m.d.js'' (Some 4), mkFile ''m.e.js'' (Some 5)]"
    using dist r v by simp
  show ?thesis using p1 l p2 dist f p3 by blast
qed

section \<open>Properties of extensionless names\<close>

lemma groupOf_groupBlobs:
  "groupOf (groupBlobs blobs) k =
     (if filter (inGroup k) blobs = [] then None
      else Some (map toFileInfo (filter (inGroup k) blobs)))"
proof (cases "map_of (groupedFiles (groupBlobs blobs)) k")
  case None
  moreover have "(map_of (groupedFiles (groupBlobs blobs)) k = None) = (filter (inGroup k) blobs = [])"
    using group_inv_groupBlobs[of blobs] unfolding group_inv_def by blast
  ultimately show ?thesis by (simp add: groupOf_def map_get_def)
next
  case (Some r)
  moreover have "(map_of (groupedFiles (groupBlobs blobs)) k = None) = (filter (inGroup k) blobs = [])"
    using group_inv_groupBlobs[of blobs] unfolding group_inv_def by blast
  moreover have "store (groupBlobs blobs) ! r = map toFileInfo (filter (inGroup k) blobs)"
    using group_inv_groupBlobs[of blobs] Some unfolding group_inv_def by blast
  ultimately show ?thesis by (simp add: groupOf_def map_get_def)
qed

text \<open>
  Claim C10. Two names without a dot have the same key; two root-level blobs of a
  listing whose names have no dot are in one and the same group; and for the listing
  \<open>README, LICENSE, Makefile\<close> that group has three records and the saving phase marks
  \<open>README\<close> as excess.
\<close>

theorem extensionless_files_share_a_group:
  "(CHR ''.'' \<notin> set a \<and> CHR ''.'' \<notin> set b \<longrightarrow> getGroupKey a = getGroupKey b)
   \<and> (x \<in> set blobs \<and> y \<in> set blobs
       \<and> CHR ''/'' \<notin> set (blob_name x) \<and> CHR ''.'' \<notin> set (blob_name x)
       \<and> CHR ''/'' \<notin> set (blob_name y) \<and> CHR ''.'' \<notin> set (blob_name y) \<longrightarrow>
       (\<exists>g. groupOf (groupBlobs blobs) (getGroupKey (blob_name x)) = Some g
           \<and> groupOf (groupBlobs blobs) (getGroupKey (blob_name y)) = Some g
           \<and> toFileInfo x \<in> set g \<and> toFileInfo y \<in> set g))
   \<and> groupOf (groupBlobs extensionlessListing) (getGroupKey ''README'')
       = Some [mkFile ''README'' (Some 1), mkFile ''LICENSE'' (Some 2),
               mkFile ''Makefile'' (Some 3)]
   \<and> earliestTotals (snd (reorderAndSaveGroupedFiles samplePlatform
         (groupedFiles (groupBlobs extensionlessListing))
         (store (groupBlobs extensionlessListing))))
       = [mkFile ''README'' (Some 1)]"
proof -
  have p1: "getGroupKey a = getGroupKey b" if "CHR ''.'' \<notin> set a" "CHR ''.'' \<notin> set b"
    using that by (simp add: getGroupKey_nodot)
  have p2: "\<exists>g. groupOf (groupBlobs blobs) (getGroupKey (blob_name x)) = Some g
           \<and> groupOf (groupBlobs blobs) (getGroupKey (blob_name y)) = Some g
           \<and> toFileInfo x \<in> set g \<and> toFileInfo y \<in> set g"
    if "x \<in> set blobs" "y \<in> set blobs"
      "CHR ''/'' \<notin> set (blob_name x)" "CHR ''.'' \<notin> set (blob_name x)"
      "CHR ''/'' \<notin> set (blob_name y)" "CHR ''.'' \<notin> set (blob_name y)"
  proof -
    let ?k = "getGroupKey (blob_name x)"
    have ky: "getGroupKey (blob_name y) = ?k" using that by (simp add: getGroupKey_nodot)
    have ix: "inGroup ?k x" using that by (simp add: inGroup_def str_includes_iff)
    have iy: "inGroup ?k y" using that ky by (simp add: inGroup_def str_includes_iff)
    have xin: "x \<in> set (filter (inGroup ?k) blobs)" "y \<in> set (filter (inGroup ?k) blobs)"
      using that ix iy by simp_all
    then have ne: "filter (inGroup ?k) blobs \<noteq> []"
      by (metis empty_iff list.set(1))
    have "groupOf (groupBlobs blobs) ?k = Some (map toFileInfo (filter (inGroup ?k) blobs))"
      using ne by (simp add: groupOf_groupBlobs)
    moreover have "toFileInfo x \<in> set (map toFileInfo (filter (inGroup ?k) blobs))"
      "toFileInfo y \<in> set (map toFileInfo (filter (inGroup ?k) blobs))"
      using xin by (simp_all del: set_filter)
    ultimately show ?thesis using ky by simp
  qed
  have p3: "groupOf (groupBlobs extensionlessListing) (getGroupKey ''README'')
       = Some [mkFile ''README'' (Some 1), mkFile ''LICENSE'' (Some 2),
               mkFile ''Makefile'' (Some 3)]"
    by code_simp
  have p4: "earliestTotals (snd (reorderAndSaveGroupedFiles samplePlatform
         (groupedFiles (groupBlobs extensionlessListing))
         (store (groupBlobs extensionlessListing))))
       = [mkFile ''README'' (Some 1)]"
    by code_simp
  show ?thesis using p1 p2 p3 p4 by blast
qed

text \<open>Claim C10, witness: \<open>README\<close> and \<open>LICENSE\<close> in that listing.\<close>

theorem extensionless_files_share_a_group_witness:
  "CHR ''.'' \<notin> set ''README'' \<and> CHR ''.'' \<notin> set ''LICENSE''
   \<and> getGroupKey ''README'' = getGroupKey ''LICENSE''
   \<and> (\<exists>g. groupOf (groupBlobs extensionlessListing) (getGroupKey ''README'') = Some g
         \<and> groupOf (groupBlobs extensionlessListing) (getGroupKey ''LICENSE'') = Some g
         \<and> mkFile ''README'' (Some 1) \<in> set g \<and> mkFile ''LICENSE'' (Some 2) \<in> set g)"
proof -
  have h: "CHR ''.'' \<notin> set ''README''" "CHR ''.'' \<notin> set ''LICENSE''"
    "CHR ''/'' \<notin> set ''README''" "CHR ''/'' \<notin> set ''LICENSE''"
    by simp_all
  have m: "blob ''README'' (Some 1) \<in> set extensionlessListing"
    "blob ''LICENSE'' (Some 2) \<in> set extensionlessListing"
    by (simp_all add: extensionlessListing_def)
  have n: "blob_name (blob ''README'' (Some 1)) = ''README''"
    "blob_name (blob ''LICENSE'' (Some 2)) = ''LICENSE''"
    "toFileInfo (blob ''README'' (Some 1)) = mkFile ''README'' (Some 1)"
    "toFileInfo (blob ''LICENSE'' (Some 2)) = mkFile ''LICENSE'' (Some 2)"
    by (simp_all add: blob_def toFileInfo_def mkFile_def)
  show ?thesis
    using h m
      extensionless_files_share_a_group[where a = "''README''" and b = "''LICENSE''"
        and x = "blob ''README'' (Some 1)" and y = "blob ''LICENSE'' (Some 2)"
        and blobs = extensionlessListing]
    unfolding n by blast
qed

section \<open>Properties of the deletion utility\<close>








end
